theory Spec2Isabelle
  imports Main "HOL-Library.While_Combinator"
begin

section \<open>Python values shared by the models\<close>

text \<open>
  Exceptions the modelled code can raise. A function that can raise returns a sum, with the
  exception on the left.
\<close>

datatype py_error = KeyError | IndexError | AssertionError | TypeError | AttributeError | ValueError

definition newline :: string where
  "newline = [CHR 0x0A]"

text \<open>\<^verbatim>\<open>sep.join(xs)\<close> on strings.\<close>

fun str_join :: "string \<Rightarrow> string list \<Rightarrow> string" where
  "str_join sep [] = []"
| "str_join sep [x] = x"
| "str_join sep (x # y # ys) = x @ sep @ str_join sep (y # ys)"

text \<open>
  An \<^verbatim>\<open>OrderedDict\<close> is an association list with one entry per key, in insertion order.
  \<^verbatim>\<open>d[k] = v\<close> replaces the value of a key already present and appends a new key;
  \<^verbatim>\<open>d.get(k)\<close> is \<^const>\<open>map_of\<close>.
\<close>

fun od_set :: "'k \<Rightarrow> 'v \<Rightarrow> ('k \<times> 'v) list \<Rightarrow> ('k \<times> 'v) list" where
  "od_set k v [] = [(k, v)]"
| "od_set k v ((k', v') # kvs) = (if k' = k then (k, v) # kvs else (k', v') # od_set k v kvs)"

text \<open>
  \<^verbatim>\<open>SlimLogger\<close> and \<^verbatim>\<open>slim_configuration.payload\<close> are process-wide objects of the
  \<^verbatim>\<open>utils\<close> package: the log of error and warning messages, and the payload's dependency
  requirements, missing dependencies and status. A logged message is the concatenation of the arguments of the
  logging call.
\<close>

datatype status = STATUS_OK | STATUS_ERROR_DEPENDENCY_REQUIRED | STATUS_ERROR_MISSING_DEPENDENCIES

record slim =
  error_log :: "string list"
  warning_log :: "string list"
  dependency_requirements :: "string list option"
  missing_dependencies :: "string list"
  missing_optional_dependencies :: "string list"
  payload_status :: status

section \<open>Input groups and deployment specifications\<close>

text \<open>
  \<^verbatim>\<open>AppDeploymentSpecification\<close> (\<^verbatim>\<open>_deployment.py\<close>) keeps its input groups and its workload
  as Python frozensets of strings. A frozenset is modelled as a HOL set of strings; the two
  sentinels are the class attributes \<^verbatim>\<open>all_input_groups = frozenset('*')\<close> and
  \<^verbatim>\<open>no_input_groups = frozenset()\<close>.
\<close>

definition all_input_groups :: "string set" where
  "all_input_groups = {''*''}"

definition no_input_groups :: "string set" where
  "no_input_groups = {}"

text \<open>
  \<^verbatim>\<open>AppDependencyGraph._union_of(fg_1, fg_2)\<close>:
  \<^verbatim>\<open>all_input_groups if '*' in fg_1 or '*' in fg_2 else fg_1.union(fg_2)\<close>.
\<close>

definition union_of :: "string set \<Rightarrow> string set \<Rightarrow> string set" where
  "union_of fg_1 fg_2 =
     (if ''*'' \<in> fg_1 \<or> ''*'' \<in> fg_2 then all_input_groups else fg_1 \<union> fg_2)"

text \<open>
  \<^verbatim>\<open>AppDeploymentSpecification.InputGroupsConverter.convert_from\<close>: the value decoded from
  JSON is a list of strings; an empty list becomes \<^verbatim>\<open>no_input_groups\<close>, a list holding
  \<^verbatim>\<open>'*'\<close> becomes \<^verbatim>\<open>all_input_groups\<close>, any other list its frozenset.
\<close>

definition InputGroupsConverter_convert_from :: "string list \<Rightarrow> string set" where
  "InputGroupsConverter_convert_from v =
     (if length v = 0 then no_input_groups
      else if ''*'' \<in> set v then all_input_groups else set v)"

section \<open>App sources and the dependency graph\<close>

text \<open>
  \<^verbatim>\<open>AppSource\<close> and \<^verbatim>\<open>AppManifest\<close> are declared outside the modelled files; the model holds
  the attributes the modelled code reads. An \<^verbatim>\<open>AppSource\<close> object is a reference (a
  natural number) into a store of objects, since the code keys dictionaries by the object
  and writes its \<^verbatim>\<open>_dependencies\<close> attribute.

  A dependency declaration of a manifest: \<^verbatim>\<open>package\<close> (\<^verbatim>\<open>None\<close> when the declaration names
  no package), \<^verbatim>\<open>version\<close> (a version range, with its text \<^verbatim>\<open>str(version)\<close> and its
  \<^verbatim>\<open>match\<close> on a version) and \<^verbatim>\<open>optional\<close>. Versions are kept as their text.
\<close>

type_synonym source = nat

record dependency =
  package :: "string option"
  version_text :: string
  version_match :: "string \<Rightarrow> bool"
  optional :: bool

text \<open>
  An input group of a manifest. Reading \<^verbatim>\<open>group.requires\<close> raises \<^verbatim>\<open>AttributeError\<close>
  (\<open>NoAttribute\<close>), gives \<^verbatim>\<open>None\<close> (\<open>NoneValue\<close>) or gives the mapping from dependency
  aliases to the input groups required of that dependency.
\<close>

datatype requires_attr = NoAttribute | NoneValue | Requires "(string \<times> string set) list"

record input_group =
  requires :: requires_attr

record manifest =
  info_id_version :: string
  manifest_dependencies :: "(string \<times> dependency) list option"
  manifest_inputGroups :: "(string \<times> input_group) list option"

record app_source =
  source_id :: string
  source_version :: string
  source_package :: string
  source_manifest :: "manifest option"
  source_dependency_sources :: "(string \<times> source) list"
  source_dependencies :: "(dependency \<times> source) list"

type_synonym heap = "source \<Rightarrow> app_source"

text \<open>
  The attributes of an \<^verbatim>\<open>AppDependencyGraph\<close>: \<^verbatim>\<open>_graph\<close> maps a source to the ordered set
  of its dependency sources, \<^verbatim>\<open>_dependents\<close> maps a source to the pairs of a declaration
  and the source that declares it.
\<close>

record dependency_graph =
  self_root :: source
  self_description :: "string option"
  self_graph :: "(source \<times> source list) list"
  self_dependents :: "(source \<times> (dependency \<times> source) list) list"
  self_installed_packages :: "(string \<times> string) list option"
  self_dependency_sources :: "(string \<times> source) list"
  self_repository_sources :: "(string \<times> source) list"

section \<open>Deployment specifications of the nodes of a dependency graph\<close>

text \<open>
  An \<^verbatim>\<open>AppDeploymentSpecification\<close> holds \<^verbatim>\<open>name\<close>, \<^verbatim>\<open>workload\<close> and \<^verbatim>\<open>inputGroups\<close>; the
  last is \<^verbatim>\<open>None\<close> when the specification has none.
\<close>

record AppDeploymentSpecification =
  spec_name :: string
  spec_workload :: "string set"
  inputGroups :: "string set option"

text \<open>
  The converters of the schema of a deployment specification.
  \<^verbatim>\<open>SafeFilenameConverter.convert_from\<close> raises \<^verbatim>\<open>ValueError\<close> unless
  \<^verbatim>\<open>re.compile(r'[-._ a-zA-Z0-9]+$', re.UNICODE).match(value)\<close> succeeds: the value is one or
  more of the listed characters, up to its end or up to a line feed that ends it.
\<close>

definition safe_characters :: string where
  "safe_characters =
     ''-._ '' @ ''abcdefghijklmnopqrstuvwxyz'' @ ''ABCDEFGHIJKLMNOPQRSTUVWXYZ'' @ ''0123456789''"

definition safe_filename :: "string \<Rightarrow> bool" where
  "safe_filename v =
     (let body = (if v \<noteq> [] \<and> last v = CHR 0x0A then butlast v else v)
      in body \<noteq> [] \<and> set body \<subseteq> set safe_characters)"

definition SafeFilenameConverter_convert_from :: "string \<Rightarrow> py_error + string" where
  "SafeFilenameConverter_convert_from v = (if safe_filename v then Inr v else Inl ValueError)"

text \<open>
  \<^verbatim>\<open>WorkloadConverter.convert_from\<close>:
  \<^verbatim>\<open>
  if not self._workload_names.issuperset(value):
      raise ValueError('Deployment specification.workload is invalid')
  return frozenset(value)
  \<close>
\<close>

definition workload_names :: "string set" where
  "workload_names = {''forwarder'', ''indexer'', ''searchHead''}"

definition WorkloadConverter_convert_from :: "string set \<Rightarrow> py_error + string set" where
  "WorkloadConverter_convert_from v = (if v \<subseteq> workload_names then Inr v else Inl ValueError)"

text \<open>
  \<^verbatim>\<open>InputGroupsConverter.convert_from\<close> on a frozenset, which is what the graph hands to the
  constructor (a frozenset is finite, so its \<^verbatim>\<open>len\<close> is 0 when it is empty):
  \<^verbatim>\<open>
  if len(value) == 0:
      value = AppDeploymentSpecification.no_input_groups
  else:
      value = frozenset(value)
      if '*' in value:
          value = AppDeploymentSpecification.all_input_groups
  return value
  \<close>
\<close>

definition InputGroupsConverter_convert_from_frozenset :: "string set \<Rightarrow> string set" where
  "InputGroupsConverter_convert_from_frozenset v =
     (if v = {} then no_input_groups
      else if ''*'' \<in> v then all_input_groups else v)"

text \<open>
  \<^verbatim>\<open>AppDeploymentSpecification.Converter.convert_from\<close>, on the three fields of the value:
  \<^verbatim>\<open>
  if value.get('inputGroups', None) is None:
      if 'forwarder' in value['workload']:
          value['inputGroups'] = AppDeploymentSpecification.all_input_groups
  elif 'forwarder' not in value['workload']:
      raise ValueError(...)
  return value
  \<close>
\<close>

definition Converter_convert_from ::
  "string \<Rightarrow> string set \<Rightarrow> string set option \<Rightarrow> py_error + AppDeploymentSpecification" where
  "Converter_convert_from name workload input_groups =
     (case input_groups of
        None \<Rightarrow>
          Inr \<lparr>spec_name = name, spec_workload = workload,
               inputGroups = (if ''forwarder'' \<in> workload then Some all_input_groups else None)\<rparr>
      | Some groups \<Rightarrow>
          if ''forwarder'' \<notin> workload then Inl ValueError
          else Inr \<lparr>spec_name = name, spec_workload = workload, inputGroups = Some groups\<rparr>)"

text \<open>
  Modelled from the spec: the constructor \<^verbatim>\<open>ObjectView.__init__\<close>, which
  \<^verbatim>\<open>AppDeploymentSpecification\<close> inherits, is not among the modelled files. By the
  specification a deployment specification is "normalized/validated against a schema",
  its \<^verbatim>\<open>inputGroups\<close> "may be present only if \<^verbatim>\<open>workload\<close> includes \<^verbatim>\<open>forwarder\<close>", and an
  illegal field (bad name characters, an inconsistency of workload and input groups) is an
  error. The constructor is taken to hand the items \<^verbatim>\<open>name\<close>, \<^verbatim>\<open>workload\<close> and
  \<^verbatim>\<open>inputGroups\<close> to \<^verbatim>\<open>AppDeploymentSpecification.schema.convert_from\<close> with no \<^verbatim>\<open>onerror\<close>,
  for which \<^verbatim>\<open>JsonSchema.convert_from\<close> takes \<^verbatim>\<open>JsonSchema._onerror\<close>, which raises
  \<^verbatim>\<open>ValueError\<close>. The schema applies the converters of the three fields in the order of
  the fields and then the converter of the object; a string and a frozenset of strings
  pass the validation of the schema as they are.
\<close>

definition AppDeploymentSpecification_init ::
  "string \<Rightarrow> string set \<Rightarrow> string set option \<Rightarrow> py_error + AppDeploymentSpecification" where
  "AppDeploymentSpecification_init name workload input_groups =
     (case SafeFilenameConverter_convert_from name of
        Inl e \<Rightarrow> Inl e
      | Inr name' \<Rightarrow>
          (case WorkloadConverter_convert_from workload of
             Inl e \<Rightarrow> Inl e
           | Inr workload' \<Rightarrow>
               Converter_convert_from name' workload'
                 (map_option InputGroupsConverter_convert_from_frozenset input_groups)))"

text \<open>
  The innermost loop of \<^verbatim>\<open>AppDependencyGraph._get_deployment_specifications\<close>, over the
  aliases of one input group's \<^verbatim>\<open>requires\<close>:
  \<^verbatim>\<open>
  for alias in aliases:
      requirement = group.requires[alias]
      dependency = dependencies[alias]
      dependency_source = self._repository_sources[dependency.package]
      assert dependency_source in self._graph[app_source], 'Dependency graph is corrupt'
      requirements[dependency_source] = union_of(
          requirements.get(dependency_source, AppDeploymentSpecification.no_input_groups), requirement)
  \<close>
  Subscripting \<^verbatim>\<open>None\<close> raises \<^verbatim>\<open>TypeError\<close>, a missing key \<^verbatim>\<open>KeyError\<close> (\<^verbatim>\<open>None\<close> is not a
  key of \<^verbatim>\<open>_repository_sources\<close>).
\<close>

fun requires_loop ::
  "dependency_graph \<Rightarrow> source \<Rightarrow> (string \<times> dependency) list option
     \<Rightarrow> (string \<times> string set) list \<Rightarrow> (source \<times> string set) list
     \<Rightarrow> py_error + (source \<times> string set) list" where
  "requires_loop self app_source dependencies [] requirements = Inr requirements"
| "requires_loop self app_source dependencies ((alias, requirement) # rest) requirements =
     (case dependencies of
        None \<Rightarrow> Inl TypeError
      | Some declarations \<Rightarrow>
     (case map_of declarations alias of
        None \<Rightarrow> Inl KeyError
      | Some dependency \<Rightarrow>
     (case package dependency of
        None \<Rightarrow> Inl KeyError
      | Some p \<Rightarrow>
     (case map_of (self_repository_sources self) p of
        None \<Rightarrow> Inl KeyError
      | Some dependency_source \<Rightarrow>
     (case map_of (self_graph self) app_source of
        None \<Rightarrow> Inl KeyError
      | Some neighbours \<Rightarrow>
          if dependency_source \<notin> set neighbours then Inl AssertionError
          else requires_loop self app_source dependencies rest
                 (od_set dependency_source
                    (union_of (case map_of requirements dependency_source of
                                 None \<Rightarrow> no_input_groups
                               | Some r \<Rightarrow> r)
                              requirement)
                    requirements))))))"

text \<open>
  The loop over the input groups of the deployment specification:
  \<^verbatim>\<open>
  for name in deployment_specification.inputGroups:
      group = input_groups.get(name)
      if group is None:
          continue
      try:
          aliases = group.requires
      except AttributeError:
          continue
      for alias in aliases:
          ...
  \<close>
  Python leaves the order in which a frozenset is iterated open, and the loop skips every
  name the manifest does not declare. The model runs the body once for each input group the
  manifest declares whose name is in the frozenset, in the order of the manifest.
  Iterating \<^verbatim>\<open>None\<close> raises \<^verbatim>\<open>TypeError\<close>.
\<close>

fun groups_loop ::
  "dependency_graph \<Rightarrow> source \<Rightarrow> (string \<times> dependency) list option
     \<Rightarrow> (string \<times> input_group) list \<Rightarrow> string set \<Rightarrow> (source \<times> string set) list
     \<Rightarrow> py_error + (source \<times> string set) list" where
  "groups_loop self app_source dependencies [] names requirements = Inr requirements"
| "groups_loop self app_source dependencies ((name, grp) # rest) names requirements =
     (if name \<notin> names then groups_loop self app_source dependencies rest names requirements
      else
        (case requires grp of
           NoAttribute \<Rightarrow> groups_loop self app_source dependencies rest names requirements
         | NoneValue \<Rightarrow> Inl TypeError
         | Requires aliases \<Rightarrow>
             (case requires_loop self app_source dependencies aliases requirements of
                Inl e \<Rightarrow> Inl e
              | Inr requirements' \<Rightarrow>
                  groups_loop self app_source dependencies rest names requirements')))"

text \<open>
  The second loop, which hands a deployment specification to every dependency and
  recurses; \<open>self_get\<close> is the nested call, and an exception of the constructor ends the
  loop (\<^verbatim>\<open>union_of\<close> on \<^verbatim>\<open>None\<close> raises \<^verbatim>\<open>TypeError\<close>):
  \<^verbatim>\<open>
  for dependency, dependency_source in app_source.dependencies:
      input_groups = requirements.get(dependency_source, AppDeploymentSpecification.no_input_groups)
      if dependency_source in result:
          dependency_deployment_specification = AppDeploymentSpecification((
              ('name', deployment_specification.name), ('workload', deployment_specification.workload),
              ('inputGroups', union_of(result[dependency_source].inputGroups, input_groups))))
      else:
          dependency_deployment_specification = AppDeploymentSpecification((
              ('name', deployment_specification.name), ('workload', deployment_specification.workload),
              ('inputGroups', input_groups)))
      self._get_deployment_specifications(dependency_source, dependency_deployment_specification, result)
  \<close>
\<close>

fun dependencies_loop ::
  "(source \<Rightarrow> AppDeploymentSpecification \<Rightarrow> (source \<times> AppDeploymentSpecification) list
      \<Rightarrow> (py_error + (source \<times> AppDeploymentSpecification) list) option)
     \<Rightarrow> AppDeploymentSpecification \<Rightarrow> (source \<times> string set) list
     \<Rightarrow> (dependency \<times> source) list \<Rightarrow> (source \<times> AppDeploymentSpecification) list
     \<Rightarrow> (py_error + (source \<times> AppDeploymentSpecification) list) option" where
  "dependencies_loop self_get deployment_specification requirements [] result = Some (Inr result)"
| "dependencies_loop self_get deployment_specification requirements
       ((dependency, dependency_source) # rest) result =
     (let input_groups = (case map_of requirements dependency_source of
                            None \<Rightarrow> no_input_groups
                          | Some r \<Rightarrow> r)
      in
      (case (case map_of result dependency_source of
               Some assigned \<Rightarrow>
                 (case inputGroups assigned of
                    None \<Rightarrow> Inl TypeError
                  | Some earlier \<Rightarrow>
                      AppDeploymentSpecification_init (spec_name deployment_specification)
                        (spec_workload deployment_specification)
                        (Some (union_of earlier input_groups)))
             | None \<Rightarrow>
                 AppDeploymentSpecification_init (spec_name deployment_specification)
                   (spec_workload deployment_specification) (Some input_groups)) of
         Inl e \<Rightarrow> Some (Inl e)
       | Inr dependency_deployment_specification \<Rightarrow>
           (case self_get dependency_source dependency_deployment_specification result of
              None \<Rightarrow> None
            | Some (Inl e) \<Rightarrow> Some (Inl e)
            | Some (Inr result') \<Rightarrow>
                dependencies_loop self_get deployment_specification requirements rest result')))"

text \<open>
  \<^verbatim>\<open>AppDependencyGraph._get_deployment_specifications(app_source, deployment_specification,
  result)\<close>. The recursion follows the \<^verbatim>\<open>dependencies\<close> of the sources and does not end on a
  cyclic store: the first argument bounds the depth of the nested calls, and \<open>None\<close> says
  that the bound was reached. An exception is \<open>Some (Inl e)\<close>, the returned \<^verbatim>\<open>result\<close> is
  \<open>Some (Inr result)\<close>. Reading an attribute of \<^verbatim>\<open>None\<close> raises \<^verbatim>\<open>AttributeError\<close>.
\<close>

primrec get_deployment_specifications_of ::
  "nat \<Rightarrow> dependency_graph \<Rightarrow> heap \<Rightarrow> source \<Rightarrow> AppDeploymentSpecification
     \<Rightarrow> (source \<times> AppDeploymentSpecification) list
     \<Rightarrow> (py_error + (source \<times> AppDeploymentSpecification) list) option" where
  "get_deployment_specifications_of 0 self h app_source deployment_specification result = None"
| "get_deployment_specifications_of (Suc n) self h app_source deployment_specification result =
     (case source_manifest (h app_source) of
        None \<Rightarrow> Some (Inl AttributeError)
      | Some m \<Rightarrow>
          (case (case manifest_inputGroups m of
                   None \<Rightarrow> Inr []
                 | Some input_groups \<Rightarrow>
                     (case inputGroups deployment_specification of
                        None \<Rightarrow> Inl TypeError
                      | Some names \<Rightarrow>
                          groups_loop self app_source (manifest_dependencies m) input_groups
                            names [])) of
             Inl e \<Rightarrow> Some (Inl e)
           | Inr requirements \<Rightarrow>
               dependencies_loop (get_deployment_specifications_of n self h)
                 deployment_specification requirements (source_dependencies (h app_source))
                 (od_set app_source deployment_specification result)))"

text \<open>
  \<^verbatim>\<open>AppDependencyGraph.get_deployment_specifications(deployment_specification)\<close>:
  \<^verbatim>\<open>
  input_groups = deployment_specification.inputGroups
  if input_groups is None or input_groups == AppDeploymentSpecification.all_input_groups:
      result = OrderedDict(((source, deployment_specification) for source in self._graph))
  else:
      result = OrderedDict()
      self._get_deployment_specifications(self._root, deployment_specification, result)
  return result
  \<close>
\<close>

definition get_deployment_specifications ::
  "nat \<Rightarrow> dependency_graph \<Rightarrow> heap \<Rightarrow> AppDeploymentSpecification
     \<Rightarrow> (py_error + (source \<times> AppDeploymentSpecification) list) option" where
  "get_deployment_specifications n self h deployment_specification =
     (let input_groups = inputGroups deployment_specification in
      if input_groups = None \<or> input_groups = Some all_input_groups
      then Some (Inr (map (\<lambda>source. (source, deployment_specification))
                          (map fst (self_graph self))))
      else get_deployment_specifications_of n self h (self_root self) deployment_specification [])"

text \<open>
  For stating which dependencies an active input group requires. \<open>required_of self m grp\<close>
  holds the pairs of a dependency source and the input groups required of it that the
  \<^verbatim>\<open>requires\<close> of \<open>grp\<close> declares, the alias resolved as the code resolves it.
\<close>

definition required_of ::
  "dependency_graph \<Rightarrow> manifest \<Rightarrow> input_group \<Rightarrow> (source \<times> string set) set" where
  "required_of self m grp =
     {(t, requirement). \<exists>aliases alias declarations dependency p.
        requires grp = Requires aliases \<and> (alias, requirement) \<in> set aliases
        \<and> manifest_dependencies m = Some declarations \<and> map_of declarations alias = Some dependency
        \<and> package dependency = Some p \<and> map_of (self_repository_sources self) p = Some t}"

text \<open>
  \<open>active self h names a g\<close>: the input group \<open>g\<close> is active at the source \<open>a\<close> along some
  path from the root, when the root is deployed with the input groups \<open>names\<close>. The groups
  of the root's specification are active at the root; a group that an active, declared
  group of \<open>a\<close> requires of a dependency is active at that dependency.
\<close>

inductive active :: "dependency_graph \<Rightarrow> heap \<Rightarrow> string set \<Rightarrow> source \<Rightarrow> string \<Rightarrow> bool"
  for self :: dependency_graph and h :: heap and names :: "string set" where
  active_root: "g \<in> names \<Longrightarrow> active self h names (self_root self) g"
| active_step:
    "active self h names a g \<Longrightarrow> source_manifest (h a) = Some m
       \<Longrightarrow> manifest_inputGroups m = Some input_groups \<Longrightarrow> (g, grp) \<in> set input_groups
       \<Longrightarrow> (t, requirement) \<in> required_of self m grp \<Longrightarrow> g' \<in> requirement
       \<Longrightarrow> active self h names t g'"










section \<open>Cycle detection\<close>

text \<open>
  \<^verbatim>\<open>AppDependencyGraph._is_cyclic\<close> walks the graph depth first with two sets shared by all
  the calls of its local function \<^verbatim>\<open>visit\<close>:
  \<^verbatim>\<open>
  graph = self._graph
  graph_path = set()
  visited = set()

  def visit(app_source):
      if app_source in visited:
          return False
      visited.add(app_source)
      graph_path.add(app_source)
      for neighbour in graph.get(app_source, ()):
          if neighbour in graph_path or visit(neighbour):
              return True
      graph_path.remove(app_source)
      return False

  return any(visit(app_source) for app_source in graph)
  \<close>
  The two sets are the state that every call takes and returns. \<open>neighbours\<close> is
  \<^verbatim>\<open>graph.get(app_source, ())\<close>.
\<close>

record visit_state =
  visited :: "source set"
  graph_path :: "source set"

definition neighbours :: "(source \<times> source list) list \<Rightarrow> source \<Rightarrow> source list" where
  "neighbours graph app_source = (case map_of graph app_source of None \<Rightarrow> [] | Some ns \<Rightarrow> ns)"

text \<open>
  The \<^verbatim>\<open>for\<close> loop of \<^verbatim>\<open>visit\<close>, with the nested call as its first argument. The result
  is the returned truth value, if the loop returns \<^verbatim>\<open>True\<close>, or \<open>False\<close> when it runs to
  its end.
\<close>

fun visit_neighbours ::
  "(source \<Rightarrow> visit_state \<Rightarrow> (bool \<times> visit_state) option) \<Rightarrow> source list \<Rightarrow> visit_state
     \<Rightarrow> (bool \<times> visit_state) option" where
  "visit_neighbours self_visit [] s = Some (False, s)"
| "visit_neighbours self_visit (neighbour # rest) s =
     (if neighbour \<in> graph_path s then Some (True, s)
      else
        (case self_visit neighbour s of
           None \<Rightarrow> None
         | Some (True, s') \<Rightarrow> Some (True, s')
         | Some (False, s') \<Rightarrow> visit_neighbours self_visit rest s'))"

text \<open>
  \<^verbatim>\<open>visit\<close>. Its first argument bounds the depth of the nested calls; \<open>None\<close> says that the
  bound was reached. The element that \<^verbatim>\<open>graph_path.remove\<close> removes was added by the same
  call.
\<close>

primrec visit ::
  "nat \<Rightarrow> (source \<times> source list) list \<Rightarrow> source \<Rightarrow> visit_state
     \<Rightarrow> (bool \<times> visit_state) option" where
  "visit 0 graph app_source s = None"
| "visit (Suc n) graph app_source s =
     (if app_source \<in> visited s then Some (False, s)
      else
        (case visit_neighbours (visit n graph) (neighbours graph app_source)
                (s\<lparr>visited := insert app_source (visited s),
                   graph_path := insert app_source (graph_path s)\<rparr>) of
           None \<Rightarrow> None
         | Some (True, s') \<Rightarrow> Some (True, s')
         | Some (False, s') \<Rightarrow> Some (False, s'\<lparr>graph_path := graph_path s' - {app_source}\<rparr>)))"

text \<open>\<^verbatim>\<open>any(visit(app_source) for app_source in graph)\<close>: it stops at the first \<^verbatim>\<open>True\<close>.\<close>

fun any_visit ::
  "(source \<Rightarrow> visit_state \<Rightarrow> (bool \<times> visit_state) option) \<Rightarrow> source list \<Rightarrow> visit_state
     \<Rightarrow> bool option" where
  "any_visit self_visit [] s = Some False"
| "any_visit self_visit (app_source # rest) s =
     (case self_visit app_source s of
        None \<Rightarrow> None
      | Some (True, s') \<Rightarrow> Some True
      | Some (False, s') \<Rightarrow> any_visit self_visit rest s')"

definition is_cyclic :: "nat \<Rightarrow> dependency_graph \<Rightarrow> bool option" where
  "is_cyclic n self =
     any_visit (visit n (self_graph self)) (map fst (self_graph self))
       \<lparr>visited = {}, graph_path = {}\<rparr>"

text \<open>
  The edges and the nodes of an adjacency mapping, and what it is for the mapping to hold
  a cycle.
\<close>

definition edges :: "(source \<times> source list) list \<Rightarrow> (source \<times> source) set" where
  "edges graph = {(a, b). b \<in> set (neighbours graph a)}"

definition graph_nodes :: "(source \<times> source list) list \<Rightarrow> source set" where
  "graph_nodes graph = set (map fst graph) \<union> set (concat (map snd graph))"

definition cyclic :: "(source \<times> source list) list \<Rightarrow> bool" where
  "cyclic graph = (\<exists>a. (a, a) \<in> (edges graph)\<^sup>+)"

text \<open>
  The invariant of the walk. The finished nodes are the visited nodes that are not on the
  path; every edge from a finished node leads to a finished node, and no finished node
  lies on a cycle.
\<close>

definition finished :: "visit_state \<Rightarrow> source set" where
  "finished s = visited s - graph_path s"

definition walk_inv :: "(source \<times> source list) list \<Rightarrow> visit_state \<Rightarrow> bool" where
  "walk_inv graph s =
     (graph_path s \<subseteq> visited s
      \<and> (\<forall>v w. v \<in> finished s \<and> (v, w) \<in> edges graph \<longrightarrow> w \<in> finished s)
      \<and> (\<forall>v. v \<in> finished s \<longrightarrow> (v, v) \<notin> (edges graph)\<^sup>+))"

text \<open>
  What a call of \<open>visit\<close> on the node \<open>a\<close> gives: it returns, and either a cycle exists or
  the path is as before, \<open>a\<close> is visited and the invariant holds.
\<close>

definition visit_post ::
  "(source \<times> source list) list \<Rightarrow> source \<Rightarrow> visit_state \<Rightarrow> (bool \<times> visit_state) option \<Rightarrow> bool"
  where
  "visit_post graph a s r =
     (\<exists>b s'. r = Some (b, s')
        \<and> (if b then cyclic graph
            else graph_path s' = graph_path s \<and> visited s \<subseteq> visited s' \<and> a \<in> visited s'
                 \<and> walk_inv graph s'))"

section \<open>Construction of the dependency graph\<close>

text \<open>Python's truth value of a string that may be \<^verbatim>\<open>None\<close>.\<close>

definition truthy :: "string option \<Rightarrow> bool" where
  "truthy x = (case x of None \<Rightarrow> False | Some s \<Rightarrow> s \<noteq> [])"

text \<open>
  \<^verbatim>\<open>self._installed_packages and self._installed_packages.get(name)\<close>, where the installed
  packages are \<^verbatim>\<open>None\<close> or a dictionary.
\<close>

definition installed_package :: "(string \<times> string) list option \<Rightarrow> string \<Rightarrow> string option" where
  "installed_package installed name =
     (case installed of None \<Rightarrow> None | Some packages \<Rightarrow> map_of packages name)"

text \<open>
  The choice of the package of a declared dependency in \<^verbatim>\<open>_get_dependencies\<close>: the package
  the declaration names, else the package the installed packages hold for the name of the
  dependency, else none.
  \<^verbatim>\<open>
  if dependency.package:
      package = dependency.package
  elif self._installed_packages and self._installed_packages.get(name):
      package = self._installed_packages.get(name)
  \<close>
\<close>

definition select_package ::
  "(string \<times> string) list option \<Rightarrow> string \<Rightarrow> dependency \<Rightarrow> string option" where
  "select_package installed name dependency =
     (if truthy (package dependency) then package dependency
      else if truthy (installed_package installed name) then installed_package installed name
      else None)"

text \<open>
  The source of a package in \<^verbatim>\<open>_get_dependencies\<close>: \<^verbatim>\<open>dependency_sources[package]\<close>, and
  on a \<^verbatim>\<open>KeyError\<close> \<^verbatim>\<open>repository_sources[package]\<close>.
\<close>

definition resolve :: "dependency_graph \<Rightarrow> string \<Rightarrow> source option" where
  "resolve self p =
     (case map_of (self_dependency_sources self) p of
        Some found \<Rightarrow> Some found
      | None \<Rightarrow> map_of (self_repository_sources self) p)"

text \<open>\<^verbatim>\<open>OrderedSet(xs)\<close>: the elements of \<open>xs\<close> in the order of their first occurrence.\<close>

fun ordered_set :: "'a list \<Rightarrow> 'a list" where
  "ordered_set [] = []"
| "ordered_set (x # xs) = x # removeAll x (ordered_set xs)"

text \<open>
  The loop of \<^verbatim>\<open>AppDependencyGraph._get_dependencies(app_source)\<close> over the pairs that
  \<^verbatim>\<open>app_source.get_dependencies_for_target_os(self._target_os)\<close> gives (the choice of the
  package is \<open>select_package\<close>, the two lookups are \<open>resolve\<close>):
  \<^verbatim>\<open>
  if dependency.package:
      package = dependency.package
  elif self._installed_packages and self._installed_packages.get(name):
      package = self._installed_packages.get(name)
  elif dependency.optional:
      SlimLogger.warning('Skipping validation for optional dependency ', encode_filename(name))
      slim_configuration.payload.add_missing_optional_dependency(name)
      continue
  else:
      SlimLogger.warning('Skipping validation for dynamic dependency ', encode_filename(name))
      slim_configuration.payload.add_missing_dependency(name)
      slim_configuration.payload.status = SlimStatus.STATUS_ERROR_MISSING_DEPENDENCIES
      continue
  try:
      dependency_source = dependency_sources[package]
  except KeyError:
      try:
          dependency_source = repository_sources[package]
      except KeyError:
          SlimLogger.error('Expected to find static dependency ', encode_filename(package))
          slim_configuration.payload.add_missing_dependency(name)
          slim_configuration.payload.status = SlimStatus.STATUS_ERROR_MISSING_DEPENDENCIES
          continue
  repository_sources[package] = dependency_source
  dependency_manifest = dependency_source.manifest
  if not dependency_manifest:
      continue
  version = dependency_manifest.info.id.version
  version_range = dependency.version
  if version_range.match(version) is False:
      SlimLogger.error(app_source.id, ': Packaged version of dependency ', encode_string(name),
                       ' is outside range ', version_range, ': ', encode_filename(dependency_source.package))
  dependencies.append((dependency, dependency_source))
  \<close>
  \<open>get_dependency\<close> is one round of the loop; every round runs to its end or to a
  \<^verbatim>\<open>continue\<close>. The state of the loop is the graph object (whose \<^verbatim>\<open>_repository_sources\<close>
  the loop writes), the process-wide log and payload, and the list \<^verbatim>\<open>dependencies\<close>. The messages
  hold the names as they are (\<^verbatim>\<open>encode_filename\<close> and \<^verbatim>\<open>encode_string\<close> belong to the
  \<^verbatim>\<open>utils\<close> package).
\<close>

definition get_dependency ::
  "heap \<Rightarrow> source \<Rightarrow> string \<times> dependency
     \<Rightarrow> dependency_graph \<times> slim \<times> (dependency \<times> source) list
     \<Rightarrow> dependency_graph \<times> slim \<times> (dependency \<times> source) list" where
  "get_dependency h app_source declaration st =
     (case declaration of (name, dependency) \<Rightarrow>
      (case st of (self, env, dependencies) \<Rightarrow>
      (case select_package (self_installed_packages self) name dependency of
         None \<Rightarrow>
           if optional dependency then
             (self,
              env\<lparr>warning_log := warning_log env
                      @ [''Skipping validation for optional dependency '' @ name],
                   missing_optional_dependencies := missing_optional_dependencies env @ [name]\<rparr>,
              dependencies)
           else
             (self,
              env\<lparr>warning_log := warning_log env
                      @ [''Skipping validation for dynamic dependency '' @ name],
                   missing_dependencies := missing_dependencies env @ [name],
                   payload_status := STATUS_ERROR_MISSING_DEPENDENCIES\<rparr>,
              dependencies)
       | Some p \<Rightarrow>
           (case resolve self p of
              None \<Rightarrow>
                (self,
                 env\<lparr>error_log := error_log env @ [''Expected to find static dependency '' @ p],
                      missing_dependencies := missing_dependencies env @ [name],
                      payload_status := STATUS_ERROR_MISSING_DEPENDENCIES\<rparr>,
                 dependencies)
            | Some dependency_source \<Rightarrow>
                (let self' = self\<lparr>self_repository_sources :=
                                    od_set p dependency_source (self_repository_sources self)\<rparr>
                 in
                 (case source_manifest (h dependency_source) of
                    None \<Rightarrow> (self', env, dependencies)
                  | Some dependency_manifest \<Rightarrow>
                      (self',
                       (if \<not> version_match dependency (info_id_version dependency_manifest)
                        then env\<lparr>error_log := error_log env
                               @ [source_id (h app_source) @ '': Packaged version of dependency ''
                                  @ name @ '' is outside range '' @ version_text dependency
                                  @ '': '' @ source_package (h dependency_source)]\<rparr>
                        else env),
                       dependencies @ [(dependency, dependency_source)])))))))"

text \<open>
  \<^verbatim>\<open>AppDependencyGraph._get_dependencies(app_source)\<close>. Reading \<^verbatim>\<open>dependencies\<close> of a
  manifest that is \<^verbatim>\<open>None\<close> raises \<^verbatim>\<open>AttributeError\<close>. The method
  \<^verbatim>\<open>get_dependencies_for_target_os\<close> of an app source, at the target operating system of
  the graph, is the parameter \<open>for_target_os\<close>.
\<close>

definition get_dependencies ::
  "(app_source \<Rightarrow> (string \<times> dependency) list) \<Rightarrow> heap \<Rightarrow> source \<Rightarrow> dependency_graph \<times> slim
     \<Rightarrow> py_error + dependency_graph \<times> slim \<times> (dependency \<times> source) list" where
  "get_dependencies for_target_os h app_source st =
     (case st of (self, env) \<Rightarrow>
       (case source_manifest (h app_source) of
          None \<Rightarrow> Inl AttributeError
        | Some m \<Rightarrow>
            if manifest_dependencies m \<noteq> None
            then Inr (fold (get_dependency h app_source) (for_target_os (h app_source))
                        (self, env, []))
            else Inr (self, env, [])))"

text \<open>
  The state of \<^verbatim>\<open>AppDependencyGraph._add_source\<close>: the queue (a deque, its left end first),
  the graph object, the store of app sources (the loop writes the \<^verbatim>\<open>_dependencies\<close> of a
  source) and the process-wide log and payload.
\<close>

record construction =
  c_queue :: "source list"
  c_self :: dependency_graph
  c_store :: heap
  c_env :: slim

text \<open>
  The loop that records the dependents:
  \<^verbatim>\<open>
  for app_dependency, app_dependency_source in app_dependencies:
      dependents = app_dependents.get(app_dependency_source)
      if dependents is None:
          dependents = deque()
      dependents.append((app_dependency, app_source))
      app_dependents[app_dependency_source] = dependents
  \<close>
\<close>

fun add_dependents ::
  "source \<Rightarrow> (dependency \<times> source) list \<Rightarrow> (source \<times> (dependency \<times> source) list) list
     \<Rightarrow> (source \<times> (dependency \<times> source) list) list" where
  "add_dependents app_source [] app_dependents = app_dependents"
| "add_dependents app_source ((app_dependency, app_dependency_source) # rest) app_dependents =
     add_dependents app_source rest
       (od_set app_dependency_source
          ((case map_of app_dependents app_dependency_source of
              None \<Rightarrow> []
            | Some dependents \<Rightarrow> dependents) @ [(app_dependency, app_source)])
          app_dependents)"

text \<open>
  One round of the \<^verbatim>\<open>while\<close> loop of \<^verbatim>\<open>_add_source\<close>:
  \<^verbatim>\<open>
  app_source = queue.pop()
  if app_source not in graph:
      app_source._dependencies = app_dependencies = self._get_dependencies(app_source)
      for app_dependency, app_dependency_source in app_dependencies:
          ...
      dependency_sources = [ds for _, ds in app_dependencies]
      graph[app_source] = OrderedSet(dependency_sources)
      queue.extendleft(dependency_sources)
  \<close>
  \<^verbatim>\<open>pop\<close> takes the right end of the deque (and raises \<^verbatim>\<open>IndexError\<close> on an empty one);
  \<^verbatim>\<open>extendleft\<close> puts the elements at the left end one after the other, so that they
  stand there in reverse order.
\<close>

definition add_source_round ::
  "(app_source \<Rightarrow> (string \<times> dependency) list) \<Rightarrow> construction \<Rightarrow> py_error + construction" where
  "add_source_round for_target_os c =
     (case rev (c_queue c) of
        [] \<Rightarrow> Inl IndexError
      | app_source # others \<Rightarrow>
          if app_source \<in> set (map fst (self_graph (c_self c)))
          then Inr (c\<lparr>c_queue := rev others\<rparr>)
          else
            (case get_dependencies for_target_os (c_store c) app_source (c_self c, c_env c) of
               Inl e \<Rightarrow> Inl e
             | Inr (self', env', app_dependencies) \<Rightarrow>
                 Inr \<lparr>c_queue = rev (map snd app_dependencies) @ rev others,
                      c_self = self'\<lparr>self_dependents :=
                                        add_dependents app_source app_dependencies
                                          (self_dependents self'),
                                      self_graph :=
                                        od_set app_source (ordered_set (map snd app_dependencies))
                                          (self_graph self')\<rparr>,
                      c_store = (c_store c)
                        (app_source := (c_store c app_source)
                           \<lparr>source_dependencies := app_dependencies\<rparr>),
                      c_env = env'\<rparr>))"

text \<open>
  \<^verbatim>\<open>_add_source\<close>: the rounds are repeated while the queue is not empty; an exception ends
  the loop. \<open>None\<close> says that the loop does not end.
\<close>

definition add_source ::
  "(app_source \<Rightarrow> (string \<times> dependency) list) \<Rightarrow> construction
     \<Rightarrow> (py_error + construction) option" where
  "add_source for_target_os c =
     while_option
       (\<lambda>st. case st of Inl e \<Rightarrow> False | Inr c' \<Rightarrow> length (c_queue c') > 0)
       (\<lambda>st. case st of Inl e \<Rightarrow> Inl e | Inr c' \<Rightarrow> add_source_round for_target_os c')
       (Inr c)"

text \<open>
  \<^verbatim>\<open>AppDependencyGraph._check_dependencies\<close>, which logs an error for every dependent whose
  version range does not match the selected version, and returns \<^verbatim>\<open>None\<close>:
  \<^verbatim>\<open>
  for app_source, dependents in list(self._dependents.items()):
      version = app_source.manifest.info.id.version
      for dependency, dependent_source in dependents:
          version_range = dependency.version
          if not version_range.match(version):
              SlimLogger.error(app_source.id, ': Version ', version, ' was selected, but version ',
                               version_range, ' is required by ', dependent_source.qualified_id)
  \<close>
  The qualified id of a source is taken to be its id.
\<close>

fun check_dependents ::
  "heap \<Rightarrow> source \<Rightarrow> string \<Rightarrow> (dependency \<times> source) list \<Rightarrow> slim \<Rightarrow> slim" where
  "check_dependents h app_source version [] env = env"
| "check_dependents h app_source version ((dependency, dependent_source) # rest) env =
     check_dependents h app_source version rest
       (if \<not> version_match dependency version
        then env\<lparr>error_log := error_log env
               @ [source_id (h app_source) @ '': Version '' @ version
                  @ '' was selected, but version '' @ version_text dependency
                  @ '' is required by '' @ source_id (h dependent_source)]\<rparr>
        else env)"

fun check_dependencies ::
  "heap \<Rightarrow> (source \<times> (dependency \<times> source) list) list \<Rightarrow> slim \<Rightarrow> py_error + slim" where
  "check_dependencies h [] env = Inr env"
| "check_dependencies h ((app_source, dependents) # rest) env =
     (case source_manifest (h app_source) of
        None \<Rightarrow> Inl AttributeError
      | Some m \<Rightarrow>
          check_dependencies h rest
            (check_dependents h app_source (info_id_version m) dependents env))"

text \<open>
  The two checks at the end of \<^verbatim>\<open>AppDependencyGraph.__init__\<close>:
  \<^verbatim>\<open>
  if self._is_cyclic():
      SlimLogger.error('Dependency graph for ', self._root.id, ' is cyclic.')
  elif self._check_dependencies():
      SlimLogger.error('Dependency graph for ', self._root.id, ' is conflicted.')
  \<close>
  \<^verbatim>\<open>_check_dependencies\<close> returns \<^verbatim>\<open>None\<close>, so the second message is never logged.
\<close>

definition final_checks ::
  "nat \<Rightarrow> dependency_graph \<Rightarrow> heap \<Rightarrow> slim \<Rightarrow> (py_error + slim) option" where
  "final_checks n self h env =
     (case is_cyclic n self of
        None \<Rightarrow> None
      | Some True \<Rightarrow>
          Some (Inr (env\<lparr>error_log := error_log env
                       @ [''Dependency graph for '' @ source_id (h (self_root self))
                          @ '' is cyclic.'']\<rparr>))
      | Some False \<Rightarrow> Some (check_dependencies h (self_dependents self) env))"

text \<open>
  \<^verbatim>\<open>AppDependencyGraph.__init__(app_source, repository, installed_packages, target_os)\<close>.
  The dictionary that \<^verbatim>\<open>app_source.populate_dependency_sources\<close> returns is the argument
  \<open>repository_sources\<close>. The result is the graph object, the store and the log.
\<close>

definition new_graph ::
  "heap \<Rightarrow> source \<Rightarrow> (string \<times> source) list \<Rightarrow> (string \<times> string) list option
     \<Rightarrow> dependency_graph" where
  "new_graph h app_source repository_sources installed_packages =
     \<lparr>self_root = app_source, self_description = None, self_graph = [],
      self_dependents = [], self_installed_packages = installed_packages,
      self_dependency_sources = source_dependency_sources (h app_source),
      self_repository_sources = repository_sources\<rparr>"

definition init ::
  "nat \<Rightarrow> (app_source \<Rightarrow> (string \<times> dependency) list) \<Rightarrow> heap \<Rightarrow> source
     \<Rightarrow> (string \<times> source) list \<Rightarrow> (string \<times> string) list option \<Rightarrow> slim
     \<Rightarrow> (py_error + dependency_graph \<times> heap \<times> slim) option" where
  "init n for_target_os h app_source repository_sources installed_packages env =
     (case add_source for_target_os
             \<lparr>c_queue = [app_source],
              c_self = new_graph h app_source repository_sources installed_packages,
              c_store = h, c_env = env\<rparr> of
        None \<Rightarrow> None
      | Some (Inl e) \<Rightarrow> Some (Inl e)
      | Some (Inr c) \<Rightarrow>
          (case final_checks n (c_self c) (c_store c) (c_env c) of
             None \<Rightarrow> None
           | Some (Inl e) \<Rightarrow> Some (Inl e)
           | Some (Inr env') \<Rightarrow> Some (Inr (c_self c, c_store c, env'))))"

text \<open>
  The dependencies of the app sources in the words of the specification, for stating what
  the construction builds. The source \<open>a\<close> declares the dependency \<open>d\<close> under the name
  \<open>name\<close> when its manifest has dependencies and the pair is among those for the target
  operating system.

  "If the manifest pins a package, use it": a declaration pins the package \<open>p\<close> when its
  \<^verbatim>\<open>package\<close> is the non-empty string \<open>p\<close>; that is a static dependency. "Else if an
  externally installed packages index has a match, use that": a declaration that pins no
  package has the match \<open>p\<close> when the index holds the non-empty string \<open>p\<close> for the name of
  the dependency.

  A package resolves to a concrete source through \<open>sources\<close>, an association list from
  packages to sources in which the first entry for a package counts.
\<close>

definition declares ::
  "(app_source \<Rightarrow> (string \<times> dependency) list) \<Rightarrow> heap \<Rightarrow> source \<Rightarrow> string \<Rightarrow> dependency
     \<Rightarrow> bool" where
  "declares for_target_os h a name d =
     (\<exists>m. source_manifest (h a) = Some m \<and> manifest_dependencies m \<noteq> None
          \<and> (name, d) \<in> set (for_target_os (h a)))"

definition pins :: "dependency \<Rightarrow> string \<Rightarrow> bool" where
  "pins d p = (package d = Some p \<and> p \<noteq> [])"

definition index_match ::
  "(string \<times> string) list option \<Rightarrow> string \<Rightarrow> dependency \<Rightarrow> string \<Rightarrow> bool" where
  "index_match installed name d p =
     ((\<nexists>q. pins d q) \<and> p \<noteq> []
      \<and> (\<exists>index. installed = Some index \<and> map_of index name = Some p))"

definition static_dependencies ::
  "(app_source \<Rightarrow> (string \<times> dependency) list) \<Rightarrow> heap \<Rightarrow> (string \<times> source) list
     \<Rightarrow> (source \<times> source) set" where
  "static_dependencies for_target_os h sources =
     {(a, t). \<exists>name d p.
        declares for_target_os h a name d \<and> pins d p \<and> map_of sources p = Some t}"

definition indexed_dependencies ::
  "(app_source \<Rightarrow> (string \<times> dependency) list) \<Rightarrow> heap \<Rightarrow> (string \<times> source) list
     \<Rightarrow> (string \<times> string) list option \<Rightarrow> (source \<times> source) set" where
  "indexed_dependencies for_target_os h sources installed =
     {(a, t). \<exists>name d p.
        declares for_target_os h a name d \<and> index_match installed name d p
        \<and> map_of sources p = Some t}"

text \<open>
  The package \<open>p\<close> chosen for the declaration \<open>d\<close> resolves to a concrete source (a source
  with a manifest), and the declared version range matches the version of that source.
\<close>

definition resolves_and_matches ::
  "heap \<Rightarrow> (string \<times> source) list \<Rightarrow> dependency \<Rightarrow> string \<Rightarrow> bool" where
  "resolves_and_matches h sources d p =
     (\<exists>t m. map_of sources p = Some t \<and> source_manifest (h t) = Some m
            \<and> version_match d (info_id_version m))"

definition static_satisfied ::
  "(app_source \<Rightarrow> (string \<times> dependency) list) \<Rightarrow> heap \<Rightarrow> (string \<times> source) list \<Rightarrow> source
     \<Rightarrow> bool" where
  "static_satisfied for_target_os h sources a =
     (\<forall>name d p. declares for_target_os h a name d \<and> pins d p
        \<longrightarrow> resolves_and_matches h sources d p)"

definition indexed_satisfied ::
  "(app_source \<Rightarrow> (string \<times> dependency) list) \<Rightarrow> heap \<Rightarrow> (string \<times> source) list
     \<Rightarrow> (string \<times> string) list option \<Rightarrow> source \<Rightarrow> bool" where
  "indexed_satisfied for_target_os h sources installed a =
     (\<forall>name d p. declares for_target_os h a name d \<and> index_match installed name d p
        \<longrightarrow> resolves_and_matches h sources d p)"

text \<open>
  The premises about the static dependencies alone: they are acyclic, and every source
  that the root reaches through them has a manifest and declares only static dependencies
  that resolve to a concrete source of a matching version.
\<close>

definition static_premises ::
  "(app_source \<Rightarrow> (string \<times> dependency) list) \<Rightarrow> heap \<Rightarrow> (string \<times> source) list \<Rightarrow> source
     \<Rightarrow> bool" where
  "static_premises for_target_os h sources app_source =
     ((\<forall>a. (a, a) \<notin> (static_dependencies for_target_os h sources)\<^sup>+)
      \<and> (\<forall>a. (app_source, a) \<in> (static_dependencies for_target_os h sources)\<^sup>*
             \<longrightarrow> source_manifest (h a) \<noteq> None
                 \<and> static_satisfied for_target_os h sources a))"

text \<open>
  The nodes of the graph that the construction returns, and the errors it has logged:
  \<open>None\<close> when the construction raises or does not return.
\<close>

definition constructed_nodes ::
  "(py_error + dependency_graph \<times> heap \<times> slim) option \<Rightarrow> source set option" where
  "constructed_nodes r =
     (case r of
        Some (Inr (self, h, env)) \<Rightarrow> Some (set (map fst (self_graph self)))
      | _ \<Rightarrow> None)"

definition constructed_errors ::
  "(py_error + dependency_graph \<times> heap \<times> slim) option \<Rightarrow> string list option" where
  "constructed_errors r =
     (case r of
        Some (Inr (self, h, env)) \<Rightarrow> Some (error_log env)
      | _ \<Rightarrow> None)"

text \<open>
  For the proofs: the edges that the construction follows, put together from the choices
  of the code. The source \<open>a\<close> has an edge to the source \<open>t\<close> when \<open>a\<close> declares a dependency
  for which \<open>select_package\<close> gives a package that \<open>resolve\<close> finds, and \<open>t\<close> has a manifest.
  \<open>self\<close> is the graph object before the construction.
\<close>

definition selected_edges ::
  "(app_source \<Rightarrow> (string \<times> dependency) list) \<Rightarrow> heap \<Rightarrow> dependency_graph
     \<Rightarrow> (source \<times> source) set" where
  "selected_edges for_target_os h self =
     {(a, t). \<exists>m name d p.
        source_manifest (h a) = Some m \<and> manifest_dependencies m \<noteq> None
        \<and> (name, d) \<in> set (for_target_os (h a))
        \<and> select_package (self_installed_packages self) name d = Some p
        \<and> resolve self p = Some t \<and> source_manifest (h t) \<noteq> None}"

text \<open>
  Every package selected for a declaration of \<open>a\<close> resolves to a source with a manifest
  whose version the declared range matches.
\<close>

definition selected_resolve ::
  "(app_source \<Rightarrow> (string \<times> dependency) list) \<Rightarrow> heap \<Rightarrow> dependency_graph \<Rightarrow> source \<Rightarrow> bool"
  where
  "selected_resolve for_target_os h self a =
     (\<forall>m name d p.
        source_manifest (h a) = Some m \<and> manifest_dependencies m \<noteq> None
        \<and> (name, d) \<in> set (for_target_os (h a))
        \<and> select_package (self_installed_packages self) name d = Some p
        \<longrightarrow> (\<exists>t m'. resolve self p = Some t \<and> source_manifest (h t) = Some m'
                     \<and> version_match d (info_id_version m')))"

text \<open>
  Invariants of the construction. The graph object keeps its root and its installed
  packages, and every package resolves as it did at the start. The store keeps the
  manifests, and the sources that are not yet keys of the graph are as they were. A
  dependent is recorded only for a declaration whose range matches the version of the
  dependency. The sources the construction can meet are the root and the values of the two
  dictionaries of sources.
\<close>

definition same_tables :: "dependency_graph \<Rightarrow> dependency_graph \<Rightarrow> bool" where
  "same_tables self0 self =
     (self_root self = self_root self0
      \<and> self_installed_packages self = self_installed_packages self0
      \<and> (\<forall>p. resolve self p = resolve self0 p))"

definition matched :: "heap \<Rightarrow> dependency \<Rightarrow> source \<Rightarrow> bool" where
  "matched h d t =
     (\<exists>m. source_manifest (h t) = Some m \<and> version_match d (info_id_version m))"

definition dependents_ok :: "heap \<Rightarrow> (source \<times> (dependency \<times> source) list) list \<Rightarrow> bool" where
  "dependents_ok h app_dependents =
     (\<forall>t ds. (t, ds) \<in> set app_dependents \<longrightarrow>
        source_manifest (h t) \<noteq> None \<and> (\<forall>d x. (d, x) \<in> set ds \<longrightarrow> matched h d t))"

definition universe :: "dependency_graph \<Rightarrow> source set" where
  "universe self =
     insert (self_root self)
       (snd ` set (self_dependency_sources self) \<union> snd ` set (self_repository_sources self))"

definition construction_inv ::
  "(app_source \<Rightarrow> (string \<times> dependency) list) \<Rightarrow> heap \<Rightarrow> dependency_graph \<Rightarrow> slim
     \<Rightarrow> construction \<Rightarrow> bool" where
  "construction_inv for_target_os h self0 env0 c =
     (let E = selected_edges for_target_os h self0;
          R = E\<^sup>* `` {self_root self0};
          g = self_graph (c_self c);
          keys = set (map fst g)
      in set (c_queue c) \<subseteq> R \<and> keys \<subseteq> R
         \<and> self_root self0 \<in> set (c_queue c) \<union> keys
         \<and> (\<forall>k t. k \<in> keys \<and> (k, t) \<in> E \<longrightarrow> t \<in> keys \<union> set (c_queue c))
         \<and> (\<forall>k. k \<in> keys \<longrightarrow> set (neighbours g k) = E `` {k})
         \<and> error_log (c_env c) = error_log env0
         \<and> same_tables self0 (c_self c)
         \<and> (\<forall>a. source_manifest (c_store c a) = source_manifest (h a))
         \<and> (\<forall>a. a \<notin> keys \<longrightarrow> c_store c a = h a)
         \<and> dependents_ok h (self_dependents (c_self c))
         \<and> distinct (map fst g))"

section \<open>Asset exclusion rules of a deployment package\<close>

text \<open>
  \<^verbatim>\<open>AppDeploymentPackage._exclusion_rule\<close> is a tuple of pairs: a pattern (a tuple of path
  segments, the last of which is a glob string or the member function
  \<^verbatim>\<open>_exclude_conf_spec\<close>) and the frozenset of workloads the pattern is excluded from.
\<close>

datatype segment = Glob string | exclude_conf_spec

definition exclusion_rule :: "(segment list \<times> string set) list" where
  "exclusion_rule =
    [([Glob ''app.manifest''], {''forwarder'', ''indexer'', ''searchHead''}),
     ([Glob ''appserver''], {''forwarder'', ''indexer''}),
     ([Glob ''lookups''], {''forwarder'', ''indexer''}),
     ([Glob ''static''], {''forwarder'', ''indexer''}),
     ([Glob ''default'', Glob ''data''], {''forwarder'', ''indexer''}),
     ([Glob ''default'', Glob ''*.conf''], {''forwarder'', ''indexer'', ''searchHead''}),
     ([Glob ''local'', Glob ''*.conf''], {''forwarder'', ''indexer'', ''searchHead''}),
     ([Glob ''metadata'', Glob ''local.meta''], {''forwarder'', ''indexer'', ''searchHead''}),
     ([Glob ''README'', exclude_conf_spec], {''forwarder'', ''indexer'', ''searchHead''})]"

text \<open>
  The loop of \<^verbatim>\<open>AppDeploymentPackage.__init__\<close> that gathers the exclusion patterns of a
  deployment specification's workload:
  \<^verbatim>\<open>
  for pattern, excluded_roles in AppDeploymentPackage._exclusion_rule:
      if len(workload.difference(excluded_roles)) == 0:
          exclusion_patterns.append(pattern)
  \<close>
\<close>

definition exclusion_patterns :: "string set \<Rightarrow> segment list list" where
  "exclusion_patterns workload =
     map fst (filter (\<lambda>(pattern, excluded_roles). card (workload - excluded_roles) = 0)
                     exclusion_rule)"

section \<open>Detection of an empty app\<close>

text \<open>
  The functions of \<^verbatim>\<open>os.path\<close> (the POSIX flavour of the Python library) that
  \<^verbatim>\<open>_detect_is_empty\<close> calls, and \<^verbatim>\<open>str.startswith\<close>.
\<close>

definition startswith :: "string \<Rightarrow> string \<Rightarrow> bool" where
  "startswith s prefix = (take (length prefix) s = prefix)"

text \<open>\<^verbatim>\<open>path.join(a, b)\<close>.\<close>

definition join :: "string \<Rightarrow> string \<Rightarrow> string" where
  "join a b =
     (if startswith b ''/'' then b
      else if a = [] \<or> last a = CHR ''/'' then a @ b
      else a @ ''/'' @ b)"

text \<open>
  \<^verbatim>\<open>path.dirname(p)\<close>: the part of \<open>p\<close> up to its last slash, without the trailing slashes
  unless it consists of slashes only.
\<close>

definition dirname :: "string \<Rightarrow> string" where
  "dirname p =
     (let head = rev (dropWhile (\<lambda>c. c \<noteq> CHR ''/'') (rev p))
      in if head \<noteq> [] \<and> head \<noteq> replicate (length head) CHR ''/''
         then rev (dropWhile (\<lambda>c. c = CHR ''/'') (rev head))
         else head)"

text \<open>\<^verbatim>\<open>s.split(c)\<close> on a single character.\<close>

fun split_on :: "char \<Rightarrow> string \<Rightarrow> string list" where
  "split_on c [] = [[]]"
| "split_on c (x # xs) =
     (if x = c then [] # split_on c xs
      else (case split_on c xs of
              [] \<Rightarrow> [[x]]
            | w # ws \<Rightarrow> (x # w) # ws))"

text \<open>
  \<^verbatim>\<open>path.normpath(path)\<close>: the loop over the components,
  \<^verbatim>\<open>
  for comp in comps:
      if comp in ('', '.'):
          continue
      if (comp != '..' or (not initial_slashes and not new_comps) or
           (new_comps and new_comps[-1] == '..')):
          new_comps.append(comp)
      elif new_comps:
          new_comps.pop()
  \<close>
  and the function around it.
\<close>

fun normpath_comps :: "bool \<Rightarrow> string list \<Rightarrow> string list \<Rightarrow> string list" where
  "normpath_comps initial_slashes [] new_comps = new_comps"
| "normpath_comps initial_slashes (part # comps) new_comps =
     (if part = [] \<or> part = ''.'' then normpath_comps initial_slashes comps new_comps
      else if part \<noteq> ''..'' \<or> (\<not> initial_slashes \<and> new_comps = [])
              \<or> (new_comps \<noteq> [] \<and> last new_comps = ''..'')
      then normpath_comps initial_slashes comps (new_comps @ [part])
      else if new_comps \<noteq> [] then normpath_comps initial_slashes comps (butlast new_comps)
      else normpath_comps initial_slashes comps new_comps)"

definition normpath :: "string \<Rightarrow> string" where
  "normpath path =
     (if path = [] then ''.''
      else
        (let initial_slashes =
               (if startswith path ''/''
                then (if startswith path ''//'' \<and> \<not> startswith path ''///'' then 2 else 1)
                else (0::nat));
             joined = str_join ''/'' (normpath_comps (initial_slashes > 0) (split_on CHR ''/'' path) []);
             result = replicate initial_slashes CHR ''/'' @ joined
         in if result = [] then ''.'' else result))"

text \<open>
  The entries \<^verbatim>\<open>license\<close>, \<^verbatim>\<open>privacyPolicy\<close> and \<^verbatim>\<open>releaseNotes\<close> of the manifest's
  \<^verbatim>\<open>info\<close>: each is \<^verbatim>\<open>None\<close> or an object whose \<^verbatim>\<open>text\<close> is \<^verbatim>\<open>None\<close> or a file name.
\<close>

record document =
  document_text :: "string option"

record app_info =
  license :: "document option"
  privacyPolicy :: "document option"
  releaseNotes :: "document option"

text \<open>
  The loop that adds a documentation file and the directories above it:
  \<^verbatim>\<open>
  while len(filename) > 0:
      empty_set.add(path.normpath(path.join(app_root, filename)))
      filename = path.dirname(filename)
  \<close>
  It does not end when \<^verbatim>\<open>dirname\<close> gives its argument back; \<open>None\<close> is a loop that does
  not end.
\<close>

partial_function (option) add_with_directories ::
  "string \<Rightarrow> string \<Rightarrow> string set \<Rightarrow> string set option" where
  "add_with_directories app_root filename empty_set =
     (if length filename > 0
      then add_with_directories app_root (dirname filename)
             (insert (normpath (join app_root filename)) empty_set)
      else Some empty_set)"

declare add_with_directories.simps [code]

text \<open>
  \<^verbatim>\<open>
  for item in app_info.license, app_info.privacyPolicy, app_info.releaseNotes:
      if item is None or item.text is None:
          continue
      filename = path.normpath(item.text)
      while len(filename) > 0:
          ...
  \<close>
\<close>

fun add_documents :: "string \<Rightarrow> document option list \<Rightarrow> string set \<Rightarrow> string set option" where
  "add_documents app_root [] empty_set = Some empty_set"
| "add_documents app_root (item # items) empty_set =
     (case item of
        None \<Rightarrow> add_documents app_root items empty_set
      | Some d \<Rightarrow>
          (case document_text d of
             None \<Rightarrow> add_documents app_root items empty_set
           | Some t \<Rightarrow>
               (case add_with_directories app_root (normpath t) empty_set of
                  None \<Rightarrow> None
                | Some empty_set' \<Rightarrow> add_documents app_root items empty_set')))"

text \<open>
  \<^verbatim>\<open>AppDeploymentPackage._detect_is_empty(app_source, asset_filenames, configurations)\<close>. Of
  the app source it reads the directory \<^verbatim>\<open>app_root\<close> and the manifest's \<^verbatim>\<open>info\<close>; of the
  configurations it reads the number of names and whether \<^verbatim>\<open>'app'\<close> is one of them, so the
  configurations are modelled by the list of their names.
  \<^verbatim>\<open>
  if len(configurations) == 0 or (len(configurations) == 1 and 'app' in configurations):
      if len(asset_filenames) == 0:
          return True
      app_info = app_source.manifest.info
      app_root = app_source.directory
      empty_set = {
          path.join(app_root, 'metadata'),
          path.join(app_root, 'metadata', 'default.meta')
      }
      for asset_file in asset_filenames:
          app_bin = path.join(app_root, 'bin')
          if asset_file.startswith(app_bin):
              empty_set.add(asset_file)
      for item in app_info.license, app_info.privacyPolicy, app_info.releaseNotes:
          ...
      if asset_filenames.issubset(empty_set):
          return True
  return False
  \<close>
\<close>

definition detect_is_empty ::
  "string \<Rightarrow> app_info \<Rightarrow> string set \<Rightarrow> string list \<Rightarrow> bool option" where
  "detect_is_empty app_root info asset_filenames configurations =
     (if length configurations = 0 \<or> (length configurations = 1 \<and> ''app'' \<in> set configurations)
      then
        if card asset_filenames = 0 then Some True
        else
          (case add_documents app_root [license info, privacyPolicy info, releaseNotes info]
                  ({join app_root ''metadata'', join (join app_root ''metadata'') ''default.meta''}
                   \<union> {asset_file \<in> asset_filenames. startswith asset_file (join app_root ''bin'')}) of
             None \<Rightarrow> None
           | Some empty_set \<Rightarrow> if asset_filenames \<subseteq> empty_set then Some True else Some False)
      else Some False)"

section \<open>Server classes and the removal of an app\<close>

text \<open>
  An installation of the installation graph (\<^verbatim>\<open>_installation.py\<close>) with the two attributes
  \<^verbatim>\<open>remove_app\<close> reads: its id and the ids of its dependents. The installation graph of a
  server class maps app ids to installations. Its method \<^verbatim>\<open>remove_installation\<close> is a
  parameter of the model.
\<close>

record installation =
  installation_id :: string
  installation_dependents :: "string list"

type_synonym installation_graph = "(string \<times> installation) list"

text \<open>
  \<^verbatim>\<open>AppServerClass.remove_app(app_id)\<close>, on the pair of the server class's apps and the
  process-wide state:
  \<^verbatim>\<open>
  installation = self.apps.get(app_id)
  if installation is None:
      return None
  if len(installation.dependents) > 0:
      SlimLogger.error(app_id, ' cannot be uninstalled because it is still required by these apps:\n    ',
                       '\n    '.join(installation.dependents))
      slim_configuration.payload.set_dependency_requirements(installation.dependents)
      slim_configuration.payload.status = SlimStatus.STATUS_ERROR_DEPENDENCY_REQUIRED
      return None
  self.apps.remove_installation(installation)
  \<close>
\<close>

definition AppServerClass_remove_app ::
  "(installation \<Rightarrow> installation_graph \<Rightarrow> installation_graph) \<Rightarrow> string
     \<Rightarrow> installation_graph \<times> slim \<Rightarrow> installation_graph \<times> slim" where
  "AppServerClass_remove_app remove_installation app_id st =
     (case st of (apps, env) \<Rightarrow>
       (case map_of apps app_id of
          None \<Rightarrow> (apps, env)
        | Some installation \<Rightarrow>
            if length (installation_dependents installation) > 0 then
              (apps,
               env\<lparr>error_log := error_log env @
                      [app_id @ '' cannot be uninstalled because it is still required by these apps:''
                         @ newline @ ''    ''
                         @ str_join (newline @ ''    '') (installation_dependents installation)],
                    dependency_requirements := Some (installation_dependents installation),
                    payload_status := STATUS_ERROR_DEPENDENCY_REQUIRED\<rparr>)
            else (remove_installation installation apps, env)))"

record server_class =
  server_class_workload :: "string set"
  server_class_apps :: installation_graph

text \<open>
  \<^verbatim>\<open>AppServerClassCollection.remove_app(app_id, server_classes)\<close>: the loop over the names,
  then the warning when the app was found nowhere. \<^verbatim>\<open>self._collection[name]\<close> raises
  \<^verbatim>\<open>KeyError\<close> on a name that is not in the collection.
\<close>

fun remove_app_loop ::
  "(installation \<Rightarrow> installation_graph \<Rightarrow> installation_graph) \<Rightarrow> string \<Rightarrow> string list
     \<Rightarrow> bool \<Rightarrow> (string \<times> server_class) list \<times> slim
     \<Rightarrow> py_error + (bool \<times> (string \<times> server_class) list \<times> slim)" where
  "remove_app_loop remove_installation app_id [] app_found st = Inr (app_found, st)"
| "remove_app_loop remove_installation app_id (name # names) app_found (coll, env) =
     (case map_of coll name of
        None \<Rightarrow> Inl KeyError
      | Some sc \<Rightarrow>
          if app_id \<in> fst ` set (server_class_apps sc) then
            (case AppServerClass_remove_app remove_installation app_id (server_class_apps sc, env) of
               (apps', env') \<Rightarrow>
                 remove_app_loop remove_installation app_id names True
                   (od_set name (sc\<lparr>server_class_apps := apps'\<rparr>) coll, env'))
          else remove_app_loop remove_installation app_id names app_found (coll, env))"

definition AppServerClassCollection_remove_app ::
  "(installation \<Rightarrow> installation_graph \<Rightarrow> installation_graph) \<Rightarrow> string \<Rightarrow> string list
     \<Rightarrow> (string \<times> server_class) list \<times> slim
     \<Rightarrow> py_error + ((string \<times> server_class) list \<times> slim)" where
  "AppServerClassCollection_remove_app remove_installation app_id server_classes st =
     (case remove_app_loop remove_installation app_id server_classes False st of
        Inl e \<Rightarrow> Inl e
      | Inr (app_found, coll, env) \<Rightarrow>
          if \<not> app_found
          then Inr (coll, env\<lparr>warning_log := warning_log env @
                                 [''App '' @ app_id @ '' has not been installed.'']\<rparr>)
          else Inr (coll, env))"

section \<open>The description of a dependency graph\<close>

text \<open>
  \<^verbatim>\<open>AppDependencyGraph._describe(app_source, level)\<close>:
  \<^verbatim>\<open>
  graph_output = ''
  if level == 1:
      graph_output += '|-- ' + app_source.id + '@' + string(app_source.version) + '\n'
  for app_dependency, app_dependency_source in app_source.dependencies:
      graph_output += '|' + '   ' * level + \
                      '|-- ' + app_dependency_source.id + \
                      '@' + string(app_dependency_source.version) + \
                      ' (accepting ' + str(app_dependency.version) + ')\n'
      graph_output += self._describe(app_dependency_source, level + 1)
  return graph_output
  \<close>
  The recursion follows the \<^verbatim>\<open>dependencies\<close> attributes of the objects and does not end
  on a cyclic store. The first argument of \<open>describe\<close> bounds the depth of the nested calls;
  \<open>None\<close> says that the bound was reached. \<open>describe_dependencies\<close> is the \<^verbatim>\<open>for\<close> loop,
  with the nested call as its first argument.
\<close>

fun describe_dependencies ::
  "(source \<Rightarrow> nat \<Rightarrow> string option) \<Rightarrow> heap \<Rightarrow> (dependency \<times> source) list \<Rightarrow> nat
     \<Rightarrow> string \<Rightarrow> string option" where
  "describe_dependencies self_describe h [] level graph_output = Some graph_output"
| "describe_dependencies self_describe h ((app_dependency, app_dependency_source) # rest)
       level graph_output =
     (case self_describe app_dependency_source (level + 1) of
        None \<Rightarrow> None
      | Some below \<Rightarrow>
          describe_dependencies self_describe h rest level
            (graph_output
               @ ''|'' @ concat (replicate level ''   '')
               @ ''|-- '' @ source_id (h app_dependency_source)
               @ ''@'' @ source_version (h app_dependency_source)
               @ '' (accepting '' @ version_text app_dependency @ '')'' @ newline
               @ below))"

primrec describe :: "nat \<Rightarrow> heap \<Rightarrow> source \<Rightarrow> nat \<Rightarrow> string option" where
  "describe 0 h app_source level = None"
| "describe (Suc n) h app_source level =
     describe_dependencies (describe n h) h (source_dependencies (h app_source)) level
       (if level = 1
        then ''|-- '' @ source_id (h app_source) @ ''@'' @ source_version (h app_source) @ newline
        else [])"

text \<open>
  The property \<^verbatim>\<open>AppDependencyGraph.description\<close>:
  \<^verbatim>\<open>
  description = self._description
  if description is None:
      description = self._description = self._describe(self.root, 1)
  return description
  \<close>
\<close>

definition description ::
  "nat \<Rightarrow> heap \<Rightarrow> dependency_graph \<Rightarrow> (string \<times> dependency_graph) option" where
  "description n h self =
     (case self_description self of
        None \<Rightarrow>
          (case describe n h (self_root self) 1 of
             None \<Rightarrow> None
           | Some d \<Rightarrow> Some (d, self\<lparr>self_description := Some d\<rparr>))
      | Some d \<Rightarrow> Some (d, self))"

text \<open>
  The rows of the tree, for stating what the description holds: one row for each
  dependency met on the depth-first walk from a source, in the order of the
  \<^verbatim>\<open>dependencies\<close> lists, with the depth at which it is met. A row is the depth, the
  declaration and the dependency's source.
\<close>

fun rows_of ::
  "(source \<Rightarrow> nat \<Rightarrow> (nat \<times> dependency \<times> source) list option)
     \<Rightarrow> (dependency \<times> source) list \<Rightarrow> nat \<Rightarrow> (nat \<times> dependency \<times> source) list option" where
  "rows_of below [] depth = Some []"
| "rows_of below ((d, t) # rest) depth =
     (case below t (depth + 1) of
        None \<Rightarrow> None
      | Some sub \<Rightarrow>
          (case rows_of below rest depth of
             None \<Rightarrow> None
           | Some later \<Rightarrow> Some ((depth, d, t) # sub @ later)))"

primrec dependency_rows ::
  "nat \<Rightarrow> heap \<Rightarrow> source \<Rightarrow> nat \<Rightarrow> (nat \<times> dependency \<times> source) list option" where
  "dependency_rows 0 h s depth = None"
| "dependency_rows (Suc n) h s depth = rows_of (dependency_rows n h) (source_dependencies (h s)) depth"

text \<open>The line of the root, and the line the code writes for a row.\<close>

definition root_line :: "heap \<Rightarrow> source \<Rightarrow> string" where
  "root_line h s = ''|-- '' @ source_id (h s) @ ''@'' @ source_version (h s) @ newline"

definition dependency_text :: "heap \<Rightarrow> dependency \<Rightarrow> source \<Rightarrow> string" where
  "dependency_text h d t =
     source_id (h t) @ ''@'' @ source_version (h t) @ '' (accepting '' @ version_text d @ '')'' @ newline"

fun row_line :: "heap \<Rightarrow> nat \<times> dependency \<times> source \<Rightarrow> string" where
  "row_line h (depth, d, t) =
     ''|'' @ replicate (3 * depth) CHR '' '' @ ''|-- '' @ dependency_text h d t"

text \<open>
  The line the specification words describe for a row: one unit \<^verbatim>\<open>'|   '\<close> for each level
  of depth, then the marker \<^verbatim>\<open>'|-- '\<close>.
\<close>

fun claimed_row_line :: "heap \<Rightarrow> nat \<times> dependency \<times> source \<Rightarrow> string" where
  "claimed_row_line h (depth, d, t) =
     concat (replicate depth ''|   '') @ ''|-- '' @ dependency_text h d t"

section \<open>Conversion of JSON values by a schema\<close>

text \<open>
  The Python values that the JSON data types of \<^verbatim>\<open>json_data.py\<close> are applied to: \<^verbatim>\<open>None\<close>,
  truth values, numbers, strings and lists. Dictionaries, and with them the class
  \<^verbatim>\<open>JsonObject\<close>, are left out of the model.
\<close>

datatype py = PyNone | PyBool bool | PyNumber int | PyStr string | PyList "py list"

text \<open>\<^verbatim>\<open>isinstance(value, Iterable)\<close> and \<^verbatim>\<open>isinstance(value, MutableSequence)\<close>.\<close>

fun is_Iterable :: "py \<Rightarrow> bool" where
  "is_Iterable (PyStr s) = True"
| "is_Iterable (PyList xs) = True"
| "is_Iterable v = False"

fun is_MutableSequence :: "py \<Rightarrow> bool" where
  "is_MutableSequence (PyList xs) = True"
| "is_MutableSequence v = False"

text \<open>
  The elements that iterating a value gives: the characters of a string, the elements of a
  list; any other value raises \<^verbatim>\<open>TypeError\<close>.
\<close>

fun iterate :: "py \<Rightarrow> py_error + py list" where
  "iterate (PyStr s) = Inr (map (\<lambda>c. PyStr [c]) s)"
| "iterate (PyList xs) = Inr xs"
| "iterate v = Inl TypeError"

text \<open>\<^verbatim>\<open>string(value)\<close>, the text of a value, as far as the messages need it.\<close>

function digits :: "nat \<Rightarrow> string" where
  "digits n = (if n < 10 then [char_of (48 + n)] else digits (n div 10) @ [char_of (48 + n mod 10)])"
  by pat_completeness auto
termination
  by (relation "measure id") auto

fun text_of :: "bool \<Rightarrow> py \<Rightarrow> string" where
  "text_of quoted PyNone = ''None''"
| "text_of quoted (PyBool b) = (if b then ''True'' else ''False'')"
| "text_of quoted (PyNumber i) = (if i < 0 then ''-'' @ digits (nat (- i)) else digits (nat i))"
| "text_of quoted (PyStr s) = (if quoted then [CHR 0x27] @ s @ [CHR 0x27] else s)"
| "text_of quoted (PyList xs) = ''['' @ str_join '', '' (map (text_of True) xs) @ '']''"

definition string_of :: "py \<Rightarrow> string" where
  "string_of v = text_of False v"

text \<open>
  The callable \<^verbatim>\<open>onerror\<close>: \<^verbatim>\<open>JsonSchema._onerror\<close> raises \<^verbatim>\<open>ValueError\<close>; a callable that
  records the message returns, and the caller goes on. The result of a method is the
  exception it raises, or its value with the messages recorded so far.
\<close>

datatype onerror = Raising | Recording

definition call_onerror :: "onerror \<Rightarrow> string \<Rightarrow> string list \<Rightarrow> py_error + string list" where
  "call_onerror onerror message recorded =
     (case onerror of Raising \<Rightarrow> Inl ValueError | Recording \<Rightarrow> Inr (recorded @ [message]))"

text \<open>
  The data types \<^verbatim>\<open>JsonArray\<close>, \<^verbatim>\<open>JsonBoolean\<close>, \<^verbatim>\<open>JsonNumber\<close> and \<^verbatim>\<open>JsonString\<close>, and
  \<^verbatim>\<open>JsonValue\<close> with its \<^verbatim>\<open>data_type\<close>, \<^verbatim>\<open>converter\<close>, \<^verbatim>\<open>default\<close> and \<^verbatim>\<open>required\<close>. A
  converter is the function its \<^verbatim>\<open>convert_from\<close> computes on the value.
\<close>

datatype json_type = JsonArray json_value | JsonBoolean | JsonNumber | JsonString
  and json_value = JsonValue json_type "(py \<Rightarrow> py_error + py) option" py bool

fun data_type :: "json_value \<Rightarrow> json_type" where
  "data_type (JsonValue t converter default_value required) = t"

text \<open>The property \<^verbatim>\<open>name\<close> and the method \<^verbatim>\<open>is_instance\<close> of the data types.\<close>

fun type_name :: "json_type \<Rightarrow> string"
  and value_type_name :: "json_value \<Rightarrow> string" where
  "type_name (JsonArray definition) = ''Array of '' @ value_type_name definition"
| "type_name JsonBoolean = ''Boolean''"
| "type_name JsonNumber = ''Number''"
| "type_name JsonString = ''String''"
| "value_type_name (JsonValue t converter default_value required) = type_name t"

fun is_instance :: "json_type \<Rightarrow> py \<Rightarrow> bool"
  and value_is_instance :: "json_value \<Rightarrow> py \<Rightarrow> bool" where
  "is_instance (JsonArray definition) v = (is_Iterable v \<or> value_is_instance definition v)"
| "is_instance JsonBoolean v = (case v of PyBool b \<Rightarrow> True | _ \<Rightarrow> False)"
| "is_instance JsonNumber v = (case v of PyNumber i \<Rightarrow> True | _ \<Rightarrow> False)"
| "is_instance JsonString v = (case v of PyStr s \<Rightarrow> True | _ \<Rightarrow> False)"
| "value_is_instance (JsonValue t converter default_value required) v = is_instance t v"

text \<open>
  \<^verbatim>\<open>JsonDataType.validate\<close>, which the array calls as \<^verbatim>\<open>super().validate\<close> and the other
  data types inherit:
  \<^verbatim>\<open>
  if self.is_instance(value):
      return True
  onerror('Expected ', self.name, ' value for ', name, ', not ' + string(value))
  return False
  \<close>
\<close>

definition JsonDataType_validate ::
  "onerror \<Rightarrow> json_type \<Rightarrow> string \<Rightarrow> py \<Rightarrow> string list \<Rightarrow> py_error + bool \<times> string list" where
  "JsonDataType_validate onerror self name v recorded =
     (if is_instance self v then Inr (True, recorded)
      else
        (case call_onerror onerror
                (''Expected '' @ type_name self @ '' value for '' @ name @ '', not '' @ string_of v)
                recorded of
           Inl e \<Rightarrow> Inl e
         | Inr recorded' \<Rightarrow> Inr (False, recorded')))"

text \<open>
  The loop of \<^verbatim>\<open>JsonArray.validate\<close> over the elements, with the validation of an element
  as its first argument:
  \<^verbatim>\<open>
  for i, element in enumerate(value):
      error_count += definition.validate(name + '[' + string(i) + ']', element, onerror) is False
  \<close>
\<close>

fun validate_elements ::
  "(string \<Rightarrow> py \<Rightarrow> string list \<Rightarrow> py_error + bool \<times> string list) \<Rightarrow> string \<Rightarrow> nat \<Rightarrow> py list
     \<Rightarrow> nat \<Rightarrow> string list \<Rightarrow> py_error + nat \<times> string list" where
  "validate_elements definition_validate name i [] error_count recorded =
     Inr (error_count, recorded)"
| "validate_elements definition_validate name i (element # rest) error_count recorded =
     (case definition_validate (name @ ''['' @ string_of (PyNumber (int i)) @ '']'') element
             recorded of
        Inl e \<Rightarrow> Inl e
      | Inr (valid, recorded') \<Rightarrow>
          validate_elements definition_validate name (Suc i) rest
            (error_count + (if valid = False then 1 else 0)) recorded')"

text \<open>
  The method \<^verbatim>\<open>validate\<close> of a data type and \<^verbatim>\<open>JsonValue.validate\<close>.
  \<^verbatim>\<open>JsonArray.validate\<close> is
  \<^verbatim>\<open>
  if not super(JsonArray, self).validate(name, value, onerror):
      return False
  definition = self._definition
  if self.is_instance(value):
      error_count = 0
      for i, element in enumerate(value):
          ...
      return error_count == 0
  return definition.validate(name, value, onerror)
  \<close>
  and \<^verbatim>\<open>JsonValue.validate\<close> is
  \<^verbatim>\<open>
  if value is None:
      if self.required is True:
          onerror('A value of type ', self.data_type.name, ' is required for ', name)
          return False
      return True
  return self.data_type.validate(name, value, onerror)
  \<close>
\<close>

fun validate ::
  "onerror \<Rightarrow> json_type \<Rightarrow> string \<Rightarrow> py \<Rightarrow> string list \<Rightarrow> py_error + bool \<times> string list"
  and JsonValue_validate ::
  "onerror \<Rightarrow> json_value \<Rightarrow> string \<Rightarrow> py \<Rightarrow> string list \<Rightarrow> py_error + bool \<times> string list"
  where
  "validate onerror (JsonArray definition) name v recorded =
     (case JsonDataType_validate onerror (JsonArray definition) name v recorded of
        Inl e \<Rightarrow> Inl e
      | Inr (False, recorded') \<Rightarrow> Inr (False, recorded')
      | Inr (True, recorded') \<Rightarrow>
          if is_instance (JsonArray definition) v then
            (case iterate v of
               Inl e \<Rightarrow> Inl e
             | Inr elements \<Rightarrow>
                 (case validate_elements (JsonValue_validate onerror definition) name 0 elements 0
                         recorded' of
                    Inl e \<Rightarrow> Inl e
                  | Inr (error_count, recorded'') \<Rightarrow> Inr (error_count = 0, recorded'')))
          else JsonValue_validate onerror definition name v recorded')"
| "validate onerror JsonBoolean name v recorded =
     JsonDataType_validate onerror JsonBoolean name v recorded"
| "validate onerror JsonNumber name v recorded =
     JsonDataType_validate onerror JsonNumber name v recorded"
| "validate onerror JsonString name v recorded =
     JsonDataType_validate onerror JsonString name v recorded"
| "JsonValue_validate onerror (JsonValue t converter default_value required) name v recorded =
     (if v = PyNone then
        if required then
          (case call_onerror onerror
                  (''A value of type '' @ type_name t @ '' is required for '' @ name) recorded of
             Inl e \<Rightarrow> Inl e
           | Inr recorded' \<Rightarrow> Inr (False, recorded'))
        else Inr (True, recorded)
      else validate onerror t name v recorded)"

text \<open>
  The two loops of \<^verbatim>\<open>JsonArray.convert_from\<close> over the elements come to the same list of
  converted elements:
  \<^verbatim>\<open>
  for i, element in enumerate(value):
      value[i] = definition.convert_from(name.format(i), element, onerror)
  \<close>
\<close>

fun convert_elements ::
  "(string \<Rightarrow> py \<Rightarrow> string list \<Rightarrow> py_error + py \<times> string list) \<Rightarrow> string \<Rightarrow> nat \<Rightarrow> py list
     \<Rightarrow> string list \<Rightarrow> py_error + py list \<times> string list" where
  "convert_elements definition_convert_from name i [] recorded = Inr ([], recorded)"
| "convert_elements definition_convert_from name i (element # rest) recorded =
     (case definition_convert_from (name @ ''['' @ string_of (PyNumber (int i)) @ '']'') element
             recorded of
        Inl e \<Rightarrow> Inl e
      | Inr (converted, recorded') \<Rightarrow>
          (case convert_elements definition_convert_from name (Suc i) rest recorded' of
             Inl e \<Rightarrow> Inl e
           | Inr (others, recorded'') \<Rightarrow> Inr (converted # others, recorded'')))"

text \<open>
  The end of \<^verbatim>\<open>JsonDataType.convert_from\<close> and of \<^verbatim>\<open>JsonString.convert_from\<close>, after the
  validation: the converter is applied, and its \<^verbatim>\<open>TypeError\<close> or \<^verbatim>\<open>ValueError\<close> is handed
  to \<^verbatim>\<open>onerror\<close>:
  \<^verbatim>\<open>
  try:
      value = converter.convert_from(self, value)
  except (TypeError, ValueError) as error:
      onerror(name, ': ', error)
      value = default
  return value
  \<close>
\<close>

definition apply_converter ::
  "onerror \<Rightarrow> (py \<Rightarrow> py_error + py) \<Rightarrow> string \<Rightarrow> py \<Rightarrow> py \<Rightarrow> string list
     \<Rightarrow> py_error + py \<times> string list" where
  "apply_converter onerror converter name v default_value recorded =
     (case converter v of
        Inr converted \<Rightarrow> Inr (converted, recorded)
      | Inl e \<Rightarrow>
          if e = TypeError \<or> e = ValueError then
            (case call_onerror onerror (name @ '': '' @ (if e = TypeError then ''TypeError''
                                                         else ''ValueError'')) recorded of
               Inl e' \<Rightarrow> Inl e'
             | Inr recorded' \<Rightarrow> Inr (default_value, recorded'))
          else Inl e)"

text \<open>
  The text that \<^verbatim>\<open>str\<close> gives for a generator, which \<^verbatim>\<open>JsonArray.convert_from\<close> returns
  for a string that is not an instance of the element type (\<^verbatim>\<open>type(value)(...)\<close> is then
  \<^verbatim>\<open>str\<close> of the generator); the address in the text is left out.
\<close>

definition generator_text :: string where
  "generator_text = ''<generator object JsonArray.convert_from.<locals>.<genexpr>>''"

text \<open>
  The method \<^verbatim>\<open>convert_from\<close> of a data type and \<^verbatim>\<open>JsonValue.convert_from\<close>.
  \<^verbatim>\<open>JsonArray.convert_from\<close> is
  \<^verbatim>\<open>
  if not self.validate(name, value, onerror):
      return default
  definition = self._definition
  if definition.data_type.is_instance(value):
      value = [definition.convert_from(name, value, onerror)]
  else:
      name += '[{0}]'
      if isinstance(value, MutableSequence):
          for i, element in enumerate(value):
              value[i] = definition.convert_from(name.format(i), element, onerror)
      else:
          value = type(value)(
              definition.convert_from(name.format(i), element, onerror) for i, element in enumerate(value)
          )
  return value if converter is None else converter.convert_from(self, value)
  \<close>
  and \<^verbatim>\<open>JsonValue.convert_from\<close> is
  \<^verbatim>\<open>
  if value is None:
      if self.required is True:
          onerror('A value of type ', self.data_type.name, ' is required for ', name)
      return self.default
  return self.data_type.convert_from(name, value, self.converter, self.default, onerror)
  \<close>
\<close>

fun convert_from ::
  "onerror \<Rightarrow> json_type \<Rightarrow> string \<Rightarrow> py \<Rightarrow> (py \<Rightarrow> py_error + py) option \<Rightarrow> py \<Rightarrow> string list
     \<Rightarrow> py_error + py \<times> string list"
  and JsonValue_convert_from ::
  "onerror \<Rightarrow> json_value \<Rightarrow> string \<Rightarrow> py \<Rightarrow> string list \<Rightarrow> py_error + py \<times> string list"
  where
  "convert_from onerror (JsonArray definition) name v converter default_value recorded =
     (case validate onerror (JsonArray definition) name v recorded of
        Inl e \<Rightarrow> Inl e
      | Inr (False, recorded') \<Rightarrow> Inr (default_value, recorded')
      | Inr (True, recorded') \<Rightarrow>
          (case (if is_instance (data_type definition) v then
                   (case JsonValue_convert_from onerror definition name v recorded' of
                      Inl e \<Rightarrow> Inl e
                    | Inr (converted, recorded'') \<Rightarrow> Inr (PyList [converted], recorded''))
                 else if is_MutableSequence v then
                   (case iterate v of
                      Inl e \<Rightarrow> Inl e
                    | Inr elements \<Rightarrow>
                        (case convert_elements (JsonValue_convert_from onerror definition) name 0
                                elements recorded' of
                           Inl e \<Rightarrow> Inl e
                         | Inr (converted, recorded'') \<Rightarrow> Inr (PyList converted, recorded'')))
                 else
                   (case v of
                      PyStr s \<Rightarrow> Inr (PyStr generator_text, recorded')
                    | _ \<Rightarrow> Inl TypeError)) of
             Inl e \<Rightarrow> Inl e
           | Inr (v', recorded'') \<Rightarrow>
               (case converter of
                  None \<Rightarrow> Inr (v', recorded'')
                | Some c \<Rightarrow>
                    (case c v' of Inl e \<Rightarrow> Inl e | Inr converted \<Rightarrow> Inr (converted, recorded'')))))"
| "convert_from onerror JsonBoolean name v converter default_value recorded =
     (case validate onerror JsonBoolean name v recorded of
        Inl e \<Rightarrow> Inl e
      | Inr (False, recorded') \<Rightarrow> Inr (default_value, recorded')
      | Inr (True, recorded') \<Rightarrow>
          (case converter of
             None \<Rightarrow> Inr (v, recorded')
           | Some c \<Rightarrow> apply_converter onerror c name v default_value recorded'))"
| "convert_from onerror JsonNumber name v converter default_value recorded =
     (case validate onerror JsonNumber name v recorded of
        Inl e \<Rightarrow> Inl e
      | Inr (False, recorded') \<Rightarrow> Inr (default_value, recorded')
      | Inr (True, recorded') \<Rightarrow>
          (case converter of
             None \<Rightarrow> Inr (v, recorded')
           | Some c \<Rightarrow> apply_converter onerror c name v default_value recorded'))"
| "convert_from onerror JsonString name v converter default_value recorded =
     (case validate onerror JsonString name v recorded of
        Inl e \<Rightarrow> Inl e
      | Inr (False, recorded') \<Rightarrow> Inr (default_value, recorded')
      | Inr (True, recorded') \<Rightarrow>
          (case converter of
             None \<Rightarrow> Inr (PyStr (string_of v), recorded')
           | Some c \<Rightarrow> apply_converter onerror c name v default_value recorded'))"
| "JsonValue_convert_from onerror (JsonValue t converter default_value required) name v recorded =
     (if v = PyNone then
        if required then
          (case call_onerror onerror
                  (''A value of type '' @ type_name t @ '' is required for '' @ name) recorded of
             Inl e \<Rightarrow> Inl e
           | Inr recorded' \<Rightarrow> Inr (default_value, recorded'))
        else Inr (default_value, recorded)
      else convert_from onerror t name v converter default_value recorded)"

section \<open>Example inputs\<close>

text \<open>Concrete inputs at which the theorems below are instantiated.\<close>

definition example_apps :: installation_graph where
  "example_apps =
     [(''pkg-a'', \<lparr>installation_id = ''pkg-a'', installation_dependents = [''pkg-c'']\<rparr>),
      (''pkg-c'', \<lparr>installation_id = ''pkg-c'', installation_dependents = []\<rparr>)]"

definition example_env :: slim where
  "example_env = \<lparr>error_log = [], warning_log = [], dependency_requirements = None,
                   missing_dependencies = [], missing_optional_dependencies = [],
                   payload_status = STATUS_OK\<rparr>"

definition example_remove_installation :: "installation \<Rightarrow> installation_graph \<Rightarrow> installation_graph" where
  "example_remove_installation i g = filter (\<lambda>(k, _). k \<noteq> installation_id i) g"

text \<open>A chain of three app sources: 0 depends on 1, which depends on 2.\<close>

definition any_version :: dependency where
  "any_version = \<lparr>package = None, version_text = ''*'', version_match = (\<lambda>v. True),
                   optional = False\<rparr>"

definition chain_heap :: heap where
  "chain_heap s =
     \<lparr>source_id = (if s = 0 then ''app'' else if s = 1 then ''lib'' else ''base''),
      source_version = ''1.0.0'', source_package = [], source_manifest = None,
      source_dependency_sources = [],
      source_dependencies = (if s = 0 then [(any_version, 1)] else if s = 1 then [(any_version, 2)]
                          else [])\<rparr>"

definition chain_graph :: dependency_graph where
  "chain_graph = \<lparr>self_root = 0, self_description = None, self_graph = [(0, [1]), (1, [2]), (2, [])],
                   self_dependents = [], self_installed_packages = None,
                   self_dependency_sources = [], self_repository_sources = []\<rparr>"

definition chain_description :: string where
  "chain_description =
     ''|-- app@1.0.0'' @ newline @
     ''|   |-- lib@1.0.0 (accepting *)'' @ newline @
     ''|      |-- base@1.0.0 (accepting *)'' @ newline"

text \<open>
  An app (source 0) with two dependencies, \<open>lib\<close> (source 1) and \<open>base\<close> (source 2); its
  input group \<open>g1\<close> requires the input group \<open>x\<close> of \<open>lib\<close> and nothing of \<open>base\<close>.
\<close>

definition lib_dependency :: dependency where
  "lib_dependency = \<lparr>package = Some ''lib.tgz'', version_text = ''*'',
                      version_match = (\<lambda>v. True), optional = False\<rparr>"

definition base_dependency :: dependency where
  "base_dependency = \<lparr>package = Some ''base.tgz'', version_text = ''*'',
                       version_match = (\<lambda>v. True), optional = False\<rparr>"

definition example_manifest :: manifest where
  "example_manifest =
     \<lparr>info_id_version = ''1.0.0'',
      manifest_dependencies = Some [(''lib'', lib_dependency), (''base'', base_dependency)],
      manifest_inputGroups = Some [(''g1'', \<lparr>requires = Requires [(''lib'', {''x''})]\<rparr>)]\<rparr>"

definition leaf_manifest :: manifest where
  "leaf_manifest = \<lparr>info_id_version = ''1.0.0'', manifest_dependencies = None,
                     manifest_inputGroups = None\<rparr>"

definition groups_heap :: heap where
  "groups_heap s =
     \<lparr>source_id = (if s = 0 then ''app'' else if s = 1 then ''lib'' else ''base''),
      source_version = ''1.0.0'', source_package = [],
      source_manifest = Some (if s = 0 then example_manifest else leaf_manifest),
      source_dependency_sources = [],
      source_dependencies = (if s = 0 then [(lib_dependency, 1), (base_dependency, 2)] else [])\<rparr>"

definition groups_graph :: dependency_graph where
  "groups_graph = \<lparr>self_root = 0, self_description = None,
                    self_graph = [(0, [1, 2]), (1, []), (2, [])],
                    self_dependents = [], self_installed_packages = None,
                    self_dependency_sources = [],
                    self_repository_sources = [(''lib.tgz'', 1), (''base.tgz'', 2)]\<rparr>"

definition forwarders :: "string set option \<Rightarrow> AppDeploymentSpecification" where
  "forwarders groups = \<lparr>spec_name = ''_forwarders'', spec_workload = {''forwarder''},
                        inputGroups = groups\<rparr>"

text \<open>Two sources that depend on each other.\<close>

definition loop_graph :: dependency_graph where
  "loop_graph = \<lparr>self_root = 0, self_description = None, self_graph = [(0, [1]), (1, [0])],
                  self_dependents = [], self_installed_packages = None,
                  self_dependency_sources = [], self_repository_sources = []\<rparr>"

text \<open>
  A \<^verbatim>\<open>get_dependencies_for_target_os\<close> that gives every declaration of the manifest.
\<close>

definition all_declared :: "app_source \<Rightarrow> (string \<times> dependency) list" where
  "all_declared s =
     (case source_manifest s of
        None \<Rightarrow> []
      | Some m \<Rightarrow> (case manifest_dependencies m of None \<Rightarrow> [] | Some ds \<Rightarrow> ds))"


text \<open>
  An app (source 0) that pins the package of its dependency \<open>lib\<close> (source 1) and leaves the
  package of its dependency \<open>base\<close> (source 2) to the index of installed packages. The index
  also has an entry for \<open>lib\<close>, and the repository another source for the package of \<open>lib\<close>;
  the pinned package and the app's own dependency sources come first.
\<close>

definition unpinned_dependency :: dependency where
  "unpinned_dependency = \<lparr>package = None, version_text = ''*'',
                           version_match = (\<lambda>v. True), optional = False\<rparr>"

definition indexed_manifest :: manifest where
  "indexed_manifest =
     \<lparr>info_id_version = ''1.0.0'',
      manifest_dependencies = Some [(''lib'', lib_dependency), (''base'', unpinned_dependency)],
      manifest_inputGroups = None\<rparr>"

definition indexed_heap :: heap where
  "indexed_heap s =
     \<lparr>source_id = (if s = 0 then ''app'' else if s = 1 then ''lib'' else ''base''),
      source_version = ''1.0.0'', source_package = [],
      source_manifest = Some (if s = 0 then indexed_manifest else leaf_manifest),
      source_dependency_sources = (if s = 0 then [(''lib.tgz'', 1)] else []),
      source_dependencies = []\<rparr>"

definition indexed_repository :: "(string \<times> source) list" where
  "indexed_repository = [(''lib.tgz'', 2), (''base.tgz'', 2)]"

definition installed_index :: "(string \<times> string) list option" where
  "installed_index = Some [(''lib'', ''base.tgz''), (''base'', ''base.tgz'')]"

text \<open>A manifest \<^verbatim>\<open>info\<close> that declares a license file and nothing else.\<close>

definition licensed :: app_info where
  "licensed = \<lparr>license = Some \<lparr>document_text = Some ''docs/LICENSE.txt''\<rparr>,
                privacyPolicy = None, releaseNotes = None\<rparr>"

definition no_documents :: app_info where
  "no_documents = \<lparr>license = None, privacyPolicy = None, releaseNotes = None\<rparr>"

section \<open>Ordered dictionaries\<close>

lemma map_of_od_set: "map_of (od_set k v kvs) = (map_of kvs)(k \<mapsto> v)"
  by (induction kvs) auto

lemma od_set_same: "map_of kvs k = Some v \<Longrightarrow> od_set k v kvs = kvs"
  by (induction kvs) (auto split: if_splits)

lemma keys_od_set: "set (map fst (od_set k v kvs)) = insert k (set (map fst kvs))"
proof (induction kvs)
  case Nil
  then show ?case by simp
next
  case (Cons x kvs)
  obtain k' v' where x: "x = (k', v')" by (cases x)
  show ?case
  proof (cases "k' = k")
    case True
    with x show ?thesis by simp
  next
    case False
    with x Cons.IH show ?thesis by (simp add: insert_commute)
  qed
qed

lemma set_od_set: "set (od_set k v kvs) \<subseteq> insert (k, v) (set kvs)"
  by (induction kvs) (auto split: if_splits)

lemma distinct_od_set: "distinct (map fst kvs) \<Longrightarrow> distinct (map fst (od_set k v kvs))"
proof (induction kvs)
  case Nil
  then show ?case by simp
next
  case (Cons x kvs)
  obtain k' v' where x: "x = (k', v')" by (cases x)
  show ?case
  proof (cases "k' = k")
    case True
    with x Cons.prems show ?thesis by simp
  next
    case False
    have "k' \<notin> set (map fst (od_set k v kvs))"
      using keys_od_set [of k v kvs] False Cons.prems x by auto
    with False x Cons show ?thesis by simp
  qed
qed

section \<open>Properties of the union of input groups\<close>

lemma InputGroupsConverter_normal:
  "''*'' \<in> InputGroupsConverter_convert_from v
     \<Longrightarrow> InputGroupsConverter_convert_from v = all_input_groups"
  by (auto simp: InputGroupsConverter_convert_from_def all_input_groups_def no_input_groups_def
           split: if_splits)

text \<open>
  C1, as stated: the union is idempotent on every set of input groups. This fails on a set
  that holds \<^verbatim>\<open>'*'\<close> beside another name: the union collapses it to the sentinel.
\<close>

theorem union_of_idempotent_counterexample:
  "union_of {''*'', ''a''} {''*'', ''a''} \<noteq> {''*'', ''a''}"
  by (simp add: union_of_def all_input_groups_def)

text \<open>
  C1, amended: the sentinel \<^verbatim>\<open>all_input_groups\<close> absorbs on either side, the union of
  \<^verbatim>\<open>no_input_groups\<close> with itself is \<^verbatim>\<open>no_input_groups\<close>, the union is commutative, and
  the union of a set with itself is the set when the set does not hold \<^verbatim>\<open>'*'\<close> and is
  \<^verbatim>\<open>all_input_groups\<close> when it does (so it is the set itself for both sentinels and for
  every value the input groups converter produces).
\<close>

theorem union_of_laws:
  "union_of all_input_groups X = all_input_groups
   \<and> union_of X all_input_groups = all_input_groups
   \<and> union_of no_input_groups no_input_groups = no_input_groups
   \<and> union_of X Y = union_of Y X
   \<and> union_of X X = (if ''*'' \<in> X then all_input_groups else X)
   \<and> union_of (InputGroupsConverter_convert_from v) (InputGroupsConverter_convert_from v)
       = InputGroupsConverter_convert_from v"
proof -
  have absorb: "union_of all_input_groups X = all_input_groups"
    "union_of X all_input_groups = all_input_groups"
    by (simp_all add: union_of_def all_input_groups_def)
  have none: "union_of no_input_groups no_input_groups = no_input_groups"
    by (simp add: union_of_def no_input_groups_def)
  have comm: "union_of X Y = union_of Y X"
    by (auto simp: union_of_def)
  have idem: "union_of Z Z = (if ''*'' \<in> Z then all_input_groups else Z)" for Z
    by (simp add: union_of_def)
  have conv: "union_of (InputGroupsConverter_convert_from v) (InputGroupsConverter_convert_from v)
       = InputGroupsConverter_convert_from v"
    using InputGroupsConverter_normal [of v] by (auto simp: idem)
  from absorb none comm idem conv show ?thesis by simp
qed

section \<open>Propagation of deployment specifications\<close>









lemma map_of_constant: "k \<in> set ks \<Longrightarrow> map_of (map (\<lambda>k. (k, v)) ks) k = Some v"
  by (induction ks) auto

text \<open>
  C2: when the deployment specification has no input groups or has the sentinel of all
  input groups, the result is returned at once; its keys are the nodes of the graph, in the
  order of the graph, and every node is assigned the deployment specification itself.
\<close>

theorem get_deployment_specifications_all:
  assumes "inputGroups deployment_specification = None
           \<or> inputGroups deployment_specification = Some all_input_groups"
  shows "\<exists>result.
           get_deployment_specifications n self h deployment_specification = Some (Inr result)
         \<and> map fst result = map fst (self_graph self)
         \<and> set (map snd result) \<subseteq> {deployment_specification}
         \<and> (\<forall>source \<in> set (map fst (self_graph self)).
               map_of result source = Some deployment_specification)"
proof -
  let ?result = "map (\<lambda>source. (source, deployment_specification)) (map fst (self_graph self))"
  have run: "get_deployment_specifications n self h deployment_specification = Some (Inr ?result)"
    using assms by (auto simp: get_deployment_specifications_def)
  have keys: "map fst ?result = map fst (self_graph self)"
    by (simp add: comp_def)
  have vals: "set (map snd ?result) \<subseteq> {deployment_specification}"
    by auto
  have look: "map_of ?result source = Some deployment_specification"
    if "source \<in> set (map fst (self_graph self))" for source
    using that by (rule map_of_constant)
  from run keys vals look show ?thesis by blast
qed


theorem get_deployment_specifications_all_witness:
  "get_deployment_specifications 0 groups_graph groups_heap (forwarders None)
     = Some (Inr [(0, forwarders None), (1, forwarders None), (2, forwarders None)])
   \<and> get_deployment_specifications 0 groups_graph groups_heap (forwarders (Some all_input_groups))
     = Some (Inr [(0, forwarders (Some all_input_groups)), (1, forwarders (Some all_input_groups)),
                  (2, forwarders (Some all_input_groups))])"
proof -
  have a: "inputGroups (forwarders None) = None
           \<or> inputGroups (forwarders None) = Some all_input_groups"
    by (simp add: forwarders_def)
  have b: "inputGroups (forwarders (Some all_input_groups)) = None
           \<or> inputGroups (forwarders (Some all_input_groups)) = Some all_input_groups"
    by (simp add: forwarders_def)
  have keys: "map fst (self_graph groups_graph) = [0, 1, 2]"
    by (simp add: groups_graph_def)
  have shape: "result = [(0, sp), (1, sp), (2, sp)]"
    if "map fst result = [0, 1, 2]" and "set (map snd result) \<subseteq> {sp}"
    for result :: "(source \<times> AppDeploymentSpecification) list" and sp
  proof -
    from that(1) obtain x y z where "result = [(0, x), (1, y), (2, z)]"
      by (auto simp: map_eq_Cons_conv)
    with that(2) show ?thesis by simp
  qed
  from get_deployment_specifications_all [OF a, of 0 groups_graph groups_heap]
  obtain r1 where r1: "get_deployment_specifications 0 groups_graph groups_heap (forwarders None)
      = Some (Inr r1)" "map fst r1 = map fst (self_graph groups_graph)"
      "set (map snd r1) \<subseteq> {forwarders None}"
    by blast
  from get_deployment_specifications_all [OF b, of 0 groups_graph groups_heap]
  obtain r2 where r2: "get_deployment_specifications 0 groups_graph groups_heap
        (forwarders (Some all_input_groups)) = Some (Inr r2)"
      "map fst r2 = map fst (self_graph groups_graph)"
      "set (map snd r2) \<subseteq> {forwarders (Some all_input_groups)}"
    by blast
  from r1 keys shape [of r1 "forwarders None"] r2 shape [of r2 "forwarders (Some all_input_groups)"]
  show ?thesis by simp
qed










text \<open>
  A deployment specification with input groups and without the \<^verbatim>\<open>forwarder\<close> workload is
  one the constructor refuses: the propagation ends in \<^verbatim>\<open>ValueError\<close> at the first
  dependency.
\<close>

lemma get_deployment_specifications_without_forwarder:
  "get_deployment_specifications 2 groups_graph groups_heap
     \<lparr>spec_name = ''_indexers'', spec_workload = {''indexer''}, inputGroups = Some {''g1''}\<rparr>
   = Some (Inl ValueError)"
proof -
  have two: "(2::nat) = Suc (Suc 0)" by simp
  have refused: "AppDeploymentSpecification_init ''_indexers'' {''indexer''} (Some g)
                 = Inl ValueError" for g
    by (simp add: AppDeploymentSpecification_init_def SafeFilenameConverter_convert_from_def
          safe_filename_def safe_characters_def WorkloadConverter_convert_from_def
          workload_names_def Converter_convert_from_def)
  show ?thesis
    unfolding two
    by (simp add: get_deployment_specifications_def refused all_input_groups_def
          groups_graph_def groups_heap_def example_manifest_def leaf_manifest_def
          lib_dependency_def base_dependency_def union_of_def no_input_groups_def)
qed


section \<open>Correctness of the cycle detection\<close>

lemma finite_graph_nodes: "finite (graph_nodes graph)"
  by (simp add: graph_nodes_def)

lemma neighbours_in_nodes: "b \<in> set (neighbours graph a) \<Longrightarrow> b \<in> graph_nodes graph"
proof -
  assume b: "b \<in> set (neighbours graph a)"
  then obtain ns where ns: "map_of graph a = Some ns" "b \<in> set ns"
    by (cases "map_of graph a") (auto simp: neighbours_def)
  from ns(1) have "(a, ns) \<in> set graph" by (rule map_of_SomeD)
  with ns(2) show ?thesis by (force simp: graph_nodes_def)
qed

lemma edge_source_is_key: "(a, b) \<in> edges graph \<Longrightarrow> a \<in> set (map fst graph)"
proof -
  assume "(a, b) \<in> edges graph"
  then obtain ns where "map_of graph a = Some ns"
    by (cases "map_of graph a") (auto simp: edges_def neighbours_def)
  then have "(a, ns) \<in> set graph" by (rule map_of_SomeD)
  then show ?thesis by force
qed

lemma finished_closed:
  assumes "walk_inv graph s" and "v \<in> finished s" and "(v, w) \<in> (edges graph)\<^sup>*"
  shows "w \<in> finished s"
  using assms(3,2)
proof (induction rule: rtrancl_induct)
  case base
  then show ?case .
next
  case (step y z)
  with assms(1) show ?case unfolding walk_inv_def by blast
qed

lemma card_unvisited_mono:
  assumes "visited s \<subseteq> visited s'"
  shows "card (graph_nodes graph - visited s') \<le> card (graph_nodes graph - visited s)"
proof (rule card_mono)
  show "finite (graph_nodes graph - visited s)" using finite_graph_nodes by simp
  show "graph_nodes graph - visited s' \<subseteq> graph_nodes graph - visited s" using assms by blast
qed

lemma visit_neighbours_correct:
  assumes nested: "\<forall>a s. card (graph_nodes graph - visited s) < n \<and> a \<in> graph_nodes graph
            \<and> walk_inv graph s \<and> a \<notin> graph_path s
            \<and> (\<forall>p \<in> graph_path s. (p, a) \<in> (edges graph)\<^sup>+)
            \<longrightarrow> visit_post graph a s (self_visit a s)"
  shows "set xs \<subseteq> set (neighbours graph c) \<Longrightarrow> card (graph_nodes graph - visited s) < n
    \<Longrightarrow> walk_inv graph s \<Longrightarrow> c \<in> graph_path s
    \<Longrightarrow> \<forall>p \<in> graph_path s. (p, c) \<in> (edges graph)\<^sup>*
    \<Longrightarrow> \<exists>b s'. visit_neighbours self_visit xs s = Some (b, s')
          \<and> (if b then cyclic graph
              else graph_path s' = graph_path s \<and> visited s \<subseteq> visited s'
                   \<and> walk_inv graph s' \<and> set xs \<subseteq> finished s')"
proof (induction xs arbitrary: s)
  case Nil
  then show ?case by (intro exI [of _ False] exI [of _ s]) simp
next
  case (Cons x xs)
  from Cons.prems(1) have edge: "(c, x) \<in> edges graph" by (simp add: edges_def)
  show ?case
  proof (cases "x \<in> graph_path s")
    case True
    with Cons.prems(5) have "(x, c) \<in> (edges graph)\<^sup>*" by blast
    from this edge have "(x, x) \<in> (edges graph)\<^sup>+" by (rule rtrancl_into_trancl1)
    then have "cyclic graph" unfolding cyclic_def by blast
    with True show ?thesis by (intro exI [of _ True] exI [of _ s]) simp
  next
    case False
    have node: "x \<in> graph_nodes graph"
      using Cons.prems(1) by (auto intro: neighbours_in_nodes)
    have chain: "\<forall>p \<in> graph_path s. (p, x) \<in> (edges graph)\<^sup>+"
      using Cons.prems(5) edge by (blast intro: rtrancl_into_trancl1)
    from nested Cons.prems(2) node Cons.prems(3) False chain
    have "visit_post graph x s (self_visit x s)" by blast
    then obtain b s1 where call: "self_visit x s = Some (b, s1)"
      and post: "if b then cyclic graph
                 else graph_path s1 = graph_path s \<and> visited s \<subseteq> visited s1 \<and> x \<in> visited s1
                      \<and> walk_inv graph s1"
      unfolding visit_post_def by blast
    show ?thesis
    proof (cases b)
      case True
      with call post False show ?thesis by (intro exI [of _ True] exI [of _ s1]) simp
    next
      case nb: False
      with post have s1: "graph_path s1 = graph_path s" "visited s \<subseteq> visited s1"
        "x \<in> visited s1" "walk_inv graph s1"
        by simp_all
      have "card (graph_nodes graph - visited s1) < n"
        using card_unvisited_mono [OF s1(2), of graph] Cons.prems(2) by simp
      moreover from Cons.prems(1) have "set xs \<subseteq> set (neighbours graph c)" by simp
      moreover from Cons.prems(4) s1(1) have "c \<in> graph_path s1" by simp
      moreover from Cons.prems(5) s1(1) have "\<forall>p \<in> graph_path s1. (p, c) \<in> (edges graph)\<^sup>*"
        by simp
      ultimately obtain b' s' where rest: "visit_neighbours self_visit xs s1 = Some (b', s')"
        and post': "if b' then cyclic graph
                    else graph_path s' = graph_path s1 \<and> visited s1 \<subseteq> visited s'
                         \<and> walk_inv graph s' \<and> set xs \<subseteq> finished s'"
        using Cons.IH [of s1] s1(4) by blast
      have run: "visit_neighbours self_visit (x # xs) s = Some (b', s')"
        using False call nb rest by simp
      show ?thesis
      proof (cases b')
        case True
        with run post' show ?thesis by (intro exI [of _ True] exI [of _ s']) simp
      next
        case False
        with post' have s': "graph_path s' = graph_path s1" "visited s1 \<subseteq> visited s'"
          "walk_inv graph s'" "set xs \<subseteq> finished s'"
          by simp_all
        from s1(3) \<open>x \<notin> graph_path s\<close> s1(1) s'(1,2) have "x \<in> finished s'"
          by (auto simp: finished_def)
        with run False s' s1 show ?thesis
          by (intro exI [of _ False] exI [of _ s']) simp
      qed
    qed
  qed
qed

lemma visit_correct:
  "card (graph_nodes graph - visited s) < n \<Longrightarrow> a \<in> graph_nodes graph \<Longrightarrow> walk_inv graph s
     \<Longrightarrow> a \<notin> graph_path s \<Longrightarrow> \<forall>p \<in> graph_path s. (p, a) \<in> (edges graph)\<^sup>+
     \<Longrightarrow> visit_post graph a s (visit n graph a s)"
proof (induction n arbitrary: a s)
  case 0
  then show ?case by simp
next
  case (Suc n)
  show ?case
  proof (cases "a \<in> visited s")
    case True
    with Suc.prems(3) show ?thesis
      unfolding visit_post_def by (intro exI [of _ False] exI [of _ s]) simp
  next
    case False
    let ?s0 = "s\<lparr>visited := insert a (visited s), graph_path := insert a (graph_path s)\<rparr>"
    have fin0: "finished ?s0 = finished s"
      using False by (auto simp: finished_def)
    have inv0: "walk_inv graph ?s0"
      using Suc.prems(3) fin0 unfolding walk_inv_def by auto
    have "a \<in> graph_nodes graph - visited s" using Suc.prems(2) False by simp
    then have "card (graph_nodes graph - visited s - {a}) < card (graph_nodes graph - visited s)"
      using finite_graph_nodes [of graph] by (intro card_Diff1_less) auto
    moreover have "graph_nodes graph - visited ?s0 = graph_nodes graph - visited s - {a}"
      by auto
    ultimately have card0: "card (graph_nodes graph - visited ?s0) < n"
      using Suc.prems(1) by simp
    have chain0: "\<forall>p \<in> graph_path ?s0. (p, a) \<in> (edges graph)\<^sup>*"
    proof
      fix p
      assume "p \<in> graph_path ?s0"
      then have "p = a \<or> p \<in> graph_path s" by simp
      then show "(p, a) \<in> (edges graph)\<^sup>*"
      proof
        assume "p = a"
        then show ?thesis by simp
      next
        assume "p \<in> graph_path s"
        with Suc.prems(5) have "(p, a) \<in> (edges graph)\<^sup>+" by blast
        then show ?thesis by (rule trancl_into_rtrancl)
      qed
    qed
    have nested: "\<forall>a s. card (graph_nodes graph - visited s) < n \<and> a \<in> graph_nodes graph
            \<and> walk_inv graph s \<and> a \<notin> graph_path s
            \<and> (\<forall>p \<in> graph_path s. (p, a) \<in> (edges graph)\<^sup>+)
            \<longrightarrow> visit_post graph a s (visit n graph a s)"
      using Suc.IH by blast
    have sub: "set (neighbours graph a) \<subseteq> set (neighbours graph a)" by simp
    have on_path: "a \<in> graph_path ?s0" by simp
    from visit_neighbours_correct [of graph n "visit n graph" "neighbours graph a" a ?s0,
              OF nested sub card0 inv0 on_path chain0]
    obtain b s' where
      loop: "visit_neighbours (visit n graph) (neighbours graph a) ?s0 = Some (b, s')"
      and post: "if b then cyclic graph
              else graph_path s' = graph_path ?s0 \<and> visited ?s0 \<subseteq> visited s'
                   \<and> walk_inv graph s' \<and> set (neighbours graph a) \<subseteq> finished s'"
      by blast
    show ?thesis
    proof (cases b)
      case True
      with loop post False show ?thesis
        unfolding visit_post_def by (intro exI [of _ True] exI [of _ s']) simp
    next
      case nb: False
      with post have s': "graph_path s' = insert a (graph_path s)"
        "insert a (visited s) \<subseteq> visited s'" "walk_inv graph s'"
        "set (neighbours graph a) \<subseteq> finished s'"
        by simp_all
      let ?s1 = "s'\<lparr>graph_path := graph_path s' - {a}\<rparr>"
      have path1: "graph_path ?s1 = graph_path s"
        using s'(1) Suc.prems(4) by auto
      have fin1: "finished ?s1 = insert a (finished s')"
        using s'(1,2) Suc.prems(4) by (auto simp: finished_def)
      have a_not_fin: "a \<notin> finished s'"
        using s'(1) by (simp add: finished_def)
      have closed: "w \<in> finished ?s1" if "v \<in> finished ?s1" and "(v, w) \<in> edges graph" for v w
      proof (cases "v = a")
        case True
        with that(2) s'(4) have "w \<in> finished s'" by (auto simp: edges_def)
        with fin1 show ?thesis by simp
      next
        case False
        with that(1) fin1 have "v \<in> finished s'" by simp
        with s'(3) that(2) have "w \<in> finished s'" unfolding walk_inv_def by blast
        with fin1 show ?thesis by simp
      qed
      have acyclic: "(v, v) \<notin> (edges graph)\<^sup>+" if "v \<in> finished ?s1" for v
      proof (cases "v = a")
        case True
        show ?thesis
        proof
          assume "(v, v) \<in> (edges graph)\<^sup>+"
          with True obtain w where w: "(a, w) \<in> edges graph" "(w, a) \<in> (edges graph)\<^sup>*"
            by (auto dest: tranclD)
          from w(1) s'(4) have "w \<in> finished s'" by (auto simp: edges_def)
          from finished_closed [OF s'(3) this w(2)] a_not_fin show False by simp
        qed
      next
        case False
        with that fin1 have "v \<in> finished s'" by simp
        with s'(3) show ?thesis unfolding walk_inv_def by blast
      qed
      have "graph_path ?s1 \<subseteq> visited ?s1"
        using s'(3) unfolding walk_inv_def by auto
      with closed acyclic have inv1: "walk_inv graph ?s1"
        unfolding walk_inv_def by blast
      have "visit (Suc n) graph a s = Some (False, ?s1)"
        using False loop nb by simp
      moreover have "visited s \<subseteq> visited ?s1" "a \<in> visited ?s1"
        using s'(2) by auto
      ultimately show ?thesis
        using path1 inv1 unfolding visit_post_def
        by (intro exI [of _ False] exI [of _ ?s1]) simp
    qed
  qed
qed

lemma any_visit_correct:
  "set starts \<subseteq> graph_nodes graph \<Longrightarrow> card (graph_nodes graph - visited s) < n
     \<Longrightarrow> walk_inv graph s \<Longrightarrow> graph_path s = {}
     \<Longrightarrow> \<exists>b. any_visit (visit n graph) starts s = Some b
           \<and> (if b then cyclic graph
               else \<forall>v \<in> set starts \<union> finished s. (v, v) \<notin> (edges graph)\<^sup>+)"
proof (induction starts arbitrary: s)
  case Nil
  then show ?case unfolding walk_inv_def by (intro exI [of _ False]) simp
next
  case (Cons a starts)
  from Cons.prems have "visit_post graph a s (visit n graph a s)"
    by (intro visit_correct) simp_all
  then obtain b s1 where call: "visit n graph a s = Some (b, s1)"
    and post: "if b then cyclic graph
               else graph_path s1 = graph_path s \<and> visited s \<subseteq> visited s1 \<and> a \<in> visited s1
                    \<and> walk_inv graph s1"
    unfolding visit_post_def by blast
  show ?case
  proof (cases b)
    case True
    with call post show ?thesis by (intro exI [of _ True]) simp
  next
    case False
    with post have s1: "graph_path s1 = {}" "visited s \<subseteq> visited s1" "a \<in> visited s1"
      "walk_inv graph s1"
      using Cons.prems(4) by simp_all
    have "card (graph_nodes graph - visited s1) < n"
      using card_unvisited_mono [OF s1(2), of graph] Cons.prems(2) by simp
    with Cons.IH [of s1] Cons.prems(1) s1 obtain b' where
      rest: "any_visit (visit n graph) starts s1 = Some b'"
      and post': "if b' then cyclic graph
               else \<forall>v \<in> set starts \<union> finished s1. (v, v) \<notin> (edges graph)\<^sup>+"
      by auto
    have fin: "insert a (finished s) \<subseteq> finished s1"
      using s1(1,2,3) Cons.prems(4) by (auto simp: finished_def)
    have run: "any_visit (visit n graph) (a # starts) s = Some b'"
      using call False rest by simp
    show ?thesis
    proof (cases b')
      case True
      with run post' show ?thesis by (intro exI [of _ True]) simp
    next
      case False
      with post' fin have "\<forall>v \<in> set (a # starts) \<union> finished s. (v, v) \<notin> (edges graph)\<^sup>+"
        by auto
      with run False show ?thesis by (intro exI [of _ False]) simp
    qed
  qed
qed

lemma any_visit_from_keys:
  assumes "card (graph_nodes graph) < n" and "set starts = set (map fst graph)"
  shows "any_visit (visit n graph) starts \<lparr>visited = {}, graph_path = {}\<rparr> = Some (cyclic graph)"
proof -
  let ?s = "\<lparr>visited = {}, graph_path = {}\<rparr>"
  have "set starts \<subseteq> graph_nodes graph" using assms(2) by (auto simp: graph_nodes_def)
  moreover have "card (graph_nodes graph - visited ?s) < n" using assms(1) by simp
  moreover have "walk_inv graph ?s" by (simp add: walk_inv_def finished_def)
  ultimately obtain b where run: "any_visit (visit n graph) starts ?s = Some b"
    and post: "if b then cyclic graph
               else \<forall>v \<in> set starts \<union> finished ?s. (v, v) \<notin> (edges graph)\<^sup>+"
    using any_visit_correct [of starts graph ?s n] by auto
  have "b = cyclic graph"
  proof (cases b)
    case True
    with post show ?thesis by simp
  next
    case False
    have "\<not> cyclic graph"
    proof
      assume "cyclic graph"
      then obtain a where a: "(a, a) \<in> (edges graph)\<^sup>+" unfolding cyclic_def by blast
      then obtain w where "(a, w) \<in> edges graph" by (auto dest: tranclD)
      then have "a \<in> set starts" using assms(2) edge_source_is_key by blast
      with post False a show False by auto
    qed
    with False show ?thesis by simp
  qed
  with run show ?thesis by simp
qed

text \<open>
  C4: with a bound on the depth of the nested calls above the number of nodes,
  \<^verbatim>\<open>_is_cyclic\<close> returns, and it returns \<^verbatim>\<open>True\<close> exactly when the adjacency mapping holds
  a cycle; the same holds for the walk started from the keys in any other order. On a
  cyclic graph the checks at the end of the construction log the message that the graph is
  cyclic; on an acyclic graph they go on to the check of the version ranges.
\<close>

theorem is_cyclic_detects_cycles:
  assumes "card (graph_nodes (self_graph self)) < n"
  shows "is_cyclic n self = Some (cyclic (self_graph self))
    \<and> (\<forall>starts. set starts = set (map fst (self_graph self)) \<longrightarrow>
          any_visit (visit n (self_graph self)) starts \<lparr>visited = {}, graph_path = {}\<rparr>
            = Some (cyclic (self_graph self)))
    \<and> (cyclic (self_graph self) \<longrightarrow>
          final_checks n self h env =
            Some (Inr (env\<lparr>error_log := error_log env
                         @ [''Dependency graph for '' @ source_id (h (self_root self))
                            @ '' is cyclic.'']\<rparr>)))
    \<and> (\<not> cyclic (self_graph self) \<longrightarrow>
          final_checks n self h env = Some (check_dependencies h (self_dependents self) env))"
proof -
  have walk: "any_visit (visit n (self_graph self)) starts \<lparr>visited = {}, graph_path = {}\<rparr>
            = Some (cyclic (self_graph self))"
    if "set starts = set (map fst (self_graph self))" for starts
    using assms that by (rule any_visit_from_keys)
  then have run: "is_cyclic n self = Some (cyclic (self_graph self))"
    by (simp add: is_cyclic_def)
  from walk run show ?thesis by (simp add: final_checks_def)
qed

theorem is_cyclic_detects_cycles_witness:
  "is_cyclic 3 loop_graph = Some True
   \<and> any_visit (visit 3 (self_graph loop_graph)) [1, 0] \<lparr>visited = {}, graph_path = {}\<rparr> = Some True
   \<and> cyclic (self_graph loop_graph)
   \<and> is_cyclic 4 chain_graph = Some False
   \<and> \<not> cyclic (self_graph chain_graph)"
proof -
  have three: "(3::nat) = Suc (Suc (Suc 0))" and four: "(4::nat) = Suc (Suc (Suc (Suc 0)))"
    by simp_all
  have "graph_nodes (self_graph loop_graph) = {0, 1}"
    by (auto simp: loop_graph_def graph_nodes_def)
  then have a: "card (graph_nodes (self_graph loop_graph)) < 3"
    by simp
  have "graph_nodes (self_graph chain_graph) = {0, 1, 2}"
    by (auto simp: chain_graph_def graph_nodes_def)
  then have b: "card (graph_nodes (self_graph chain_graph)) < 4"
    by simp
  have e1: "is_cyclic 3 loop_graph = Some True"
    unfolding three by (simp add: is_cyclic_def loop_graph_def neighbours_def)
  have e2: "any_visit (visit 3 (self_graph loop_graph)) [1, 0] \<lparr>visited = {}, graph_path = {}\<rparr>
              = Some True"
    unfolding three by (simp add: loop_graph_def neighbours_def)
  have e3: "is_cyclic 4 chain_graph = Some False"
    unfolding four by (simp add: is_cyclic_def chain_graph_def neighbours_def)
  note t1 = is_cyclic_detects_cycles [OF a, of undefined undefined]
  note t2 = is_cyclic_detects_cycles [OF b, of undefined undefined]
  from t1 e1 have c1: "cyclic (self_graph loop_graph)" by simp
  from t2 e3 have c2: "\<not> cyclic (self_graph chain_graph)" by simp
  from e1 e2 e3 c1 c2 show ?thesis by simp
qed

section \<open>What the construction builds\<close>

lemma resolve_in_universe:
  "resolve self p = Some t \<Longrightarrow> t \<in> universe self"
proof -
  assume r: "resolve self p = Some t"
  show ?thesis
  proof (cases "map_of (self_dependency_sources self) p")
    case None
    with r have "map_of (self_repository_sources self) p = Some t" by (simp add: resolve_def)
    then have "(p, t) \<in> set (self_repository_sources self)" by (rule map_of_SomeD)
    then show ?thesis by (force simp: universe_def)
  next
    case (Some found)
    with r have "map_of (self_dependency_sources self) p = Some t" by (simp add: resolve_def)
    then have "(p, t) \<in> set (self_dependency_sources self)" by (rule map_of_SomeD)
    then show ?thesis by (force simp: universe_def)
  qed
qed

lemma finite_universe: "finite (universe self)"
  by (simp add: universe_def)

lemma card_universe:
  "card (universe self)
     \<le> length (self_dependency_sources self) + length (self_repository_sources self) + 1"
proof -
  let ?A = "snd ` set (self_dependency_sources self)"
  let ?B = "snd ` set (self_repository_sources self)"
  have "card ?A \<le> length (self_dependency_sources self)"
    by (metis card_image_le card_length le_trans List.finite_set)
  moreover have "card ?B \<le> length (self_repository_sources self)"
    by (metis card_image_le card_length le_trans List.finite_set)
  moreover have "card (?A \<union> ?B) \<le> card ?A + card ?B" by (rule card_Un_le)
  moreover have "card (universe self) \<le> Suc (card (?A \<union> ?B))"
    unfolding universe_def by (rule card_insert_le_m1) simp_all
  ultimately show ?thesis by simp
qed

lemma resolve_od_set:
  assumes "resolve self p = Some t"
  shows "resolve (self\<lparr>self_repository_sources := od_set p t (self_repository_sources self)\<rparr>) q
           = resolve self q"
  using assms by (auto simp: resolve_def map_of_od_set split: option.splits)

lemma get_dependency_props:
  assumes run: "get_dependency h' a (name, d) (self, env, deps) = (self', env', deps')"
    and tables: "same_tables self0 self"
    and heap: "\<forall>t. source_manifest (h' t) = source_manifest (h t)"
  shows "same_tables self0 self'"
    and "self_graph self' = self_graph self"
    and "self_dependents self' = self_dependents self"
    and "set deps' = set deps \<union>
           {(d, t) | t p. select_package (self_installed_packages self0) name d = Some p
                        \<and> resolve self0 p = Some t \<and> source_manifest (h t) \<noteq> None}"
    and "(\<forall>p. select_package (self_installed_packages self0) name d = Some p
              \<longrightarrow> (\<exists>t. resolve self0 p = Some t \<and> matched h d t))
         \<Longrightarrow> error_log env' = error_log env"
proof -
  from tables have inst: "self_installed_packages self = self_installed_packages self0"
    and res: "\<And>p. resolve self p = resolve self0 p"
    by (simp_all add: same_tables_def)
  show "same_tables self0 self'"
  proof (cases "select_package (self_installed_packages self) name d")
    case None
    with run tables show ?thesis
      by (auto simp: get_dependency_def same_tables_def resolve_def split: if_splits)
  next
    case (Some p)
    show ?thesis
    proof (cases "resolve self p")
      case None
      with Some run tables show ?thesis
        by (auto simp: get_dependency_def same_tables_def resolve_def)
    next
      case (Some t)
      note r = resolve_od_set [OF Some]
      from \<open>select_package (self_installed_packages self) name d = Some p\<close> Some run
      have "self' = self\<lparr>self_repository_sources := od_set p t (self_repository_sources self)\<rparr>"
        by (auto simp: get_dependency_def Let_def split: option.splits)
      with tables r show ?thesis by (simp add: same_tables_def)
    qed
  qed
  show "self_graph self' = self_graph self"
    using run by (auto simp: get_dependency_def Let_def split: option.splits if_splits)
  show "self_dependents self' = self_dependents self"
    using run by (auto simp: get_dependency_def Let_def split: option.splits if_splits)
  show "set deps' = set deps \<union>
           {(d, t) | t p. select_package (self_installed_packages self0) name d = Some p
                        \<and> resolve self0 p = Some t \<and> source_manifest (h t) \<noteq> None}"
    using run heap inst res
    by (auto simp: get_dependency_def Let_def split: option.splits if_splits)
  show "error_log env' = error_log env"
    if "\<forall>p. select_package (self_installed_packages self0) name d = Some p
              \<longrightarrow> (\<exists>t. resolve self0 p = Some t \<and> matched h d t)"
    using run heap inst res that
    by (auto simp: get_dependency_def Let_def matched_def split: option.splits if_splits)
qed

lemma get_dependencies_fold:
  assumes heap: "\<forall>t. source_manifest (h' t) = source_manifest (h t)"
  shows "fold (get_dependency h' a) pairs (self, env, deps) = (self', env', deps')
    \<Longrightarrow> same_tables self0 self
    \<Longrightarrow> same_tables self0 self' \<and> self_graph self' = self_graph self
        \<and> self_dependents self' = self_dependents self
        \<and> set deps' = set deps \<union>
             {(d, t) | d t name p. (name, d) \<in> set pairs
                \<and> select_package (self_installed_packages self0) name d = Some p
                \<and> resolve self0 p = Some t \<and> source_manifest (h t) \<noteq> None}
        \<and> ((\<forall>name d p. (name, d) \<in> set pairs
                \<and> select_package (self_installed_packages self0) name d = Some p
                \<longrightarrow> (\<exists>t. resolve self0 p = Some t \<and> matched h d t))
             \<longrightarrow> error_log env' = error_log env)"
proof (induction pairs arbitrary: self env deps)
  case Nil
  then show ?case by simp
next
  case (Cons x pairs)
  obtain name d where x: "x = (name, d)" by (cases x)
  obtain self1 env1 deps1 where
    step: "get_dependency h' a (name, d) (self, env, deps) = (self1, env1, deps1)"
    by (cases "get_dependency h' a (name, d) (self, env, deps)") auto
  note p = get_dependency_props [OF step Cons.prems(2) heap]
  from Cons.prems(1) x step have
    "fold (get_dependency h' a) pairs (self1, env1, deps1) = (self', env', deps')"
    by simp
  from Cons.IH [OF this p(1)] have ih:
    "same_tables self0 self'" "self_graph self' = self_graph self1"
    "self_dependents self' = self_dependents self1"
    "set deps' = set deps1 \<union>
             {(d, t) | d t name p. (name, d) \<in> set pairs
                \<and> select_package (self_installed_packages self0) name d = Some p
                \<and> resolve self0 p = Some t \<and> source_manifest (h t) \<noteq> None}"
    "(\<forall>name d p. (name, d) \<in> set pairs
                \<and> select_package (self_installed_packages self0) name d = Some p
                \<longrightarrow> (\<exists>t. resolve self0 p = Some t \<and> matched h d t))
             \<longrightarrow> error_log env' = error_log env1"
    by blast+
  have sets: "set deps' = set deps \<union>
             {(d, t) | d t name p. (name, d) \<in> set (x # pairs)
                \<and> select_package (self_installed_packages self0) name d = Some p
                \<and> resolve self0 p = Some t \<and> source_manifest (h t) \<noteq> None}"
    unfolding ih(4) p(4) x by auto
  have log: "error_log env' = error_log env"
    if ok: "\<forall>name d p. (name, d) \<in> set (x # pairs)
                \<and> select_package (self_installed_packages self0) name d = Some p
                \<longrightarrow> (\<exists>t. resolve self0 p = Some t \<and> matched h d t)"
  proof -
    from ok x have "\<forall>p. select_package (self_installed_packages self0) name d = Some p
              \<longrightarrow> (\<exists>t. resolve self0 p = Some t \<and> matched h d t)"
      by auto
    then have "error_log env1 = error_log env" by (rule p(5))
    moreover from ok have "error_log env' = error_log env1"
      using ih(5) by auto
    ultimately show ?thesis by simp
  qed
  from ih(1,2,3) p(2,3) sets log show ?case by simp
qed

lemma get_dependencies_props:
  assumes m: "source_manifest (h a) = Some m"
    and same: "h' a = h a"
    and heap: "\<forall>t. source_manifest (h' t) = source_manifest (h t)"
    and tables: "same_tables self0 self"
  shows "\<exists>self' env' deps.
      get_dependencies for_target_os h' a (self, env) = Inr (self', env', deps)
    \<and> same_tables self0 self' \<and> self_graph self' = self_graph self
    \<and> self_dependents self' = self_dependents self
    \<and> set (map snd deps) = selected_edges for_target_os h self0 `` {a}
    \<and> (selected_resolve for_target_os h self0 a
         \<longrightarrow> error_log env' = error_log env \<and> (\<forall>d t. (d, t) \<in> set deps \<longrightarrow> matched h d t))"
proof (cases "manifest_dependencies m = None")
  case True
  with m same have run: "get_dependencies for_target_os h' a (self, env) = Inr (self, env, [])"
    by (simp add: get_dependencies_def)
  from True m have "selected_edges for_target_os h self0 `` {a} = {}"
    by (auto simp: selected_edges_def)
  with run tables show ?thesis by simp
next
  case False
  obtain self' env' deps where
    loop: "fold (get_dependency h' a) (for_target_os (h a)) (self, env, []) = (self', env', deps)"
    by (cases "fold (get_dependency h' a) (for_target_os (h a)) (self, env, [])") auto
  with False m same have run:
    "get_dependencies for_target_os h' a (self, env) = Inr (self', env', deps)"
    by (simp add: get_dependencies_def)
  from get_dependencies_fold [OF heap loop tables] have f:
    "same_tables self0 self'" "self_graph self' = self_graph self"
    "self_dependents self' = self_dependents self"
    "set deps = {(d, t) | d t name p. (name, d) \<in> set (for_target_os (h a))
                \<and> select_package (self_installed_packages self0) name d = Some p
                \<and> resolve self0 p = Some t \<and> source_manifest (h t) \<noteq> None}"
    "(\<forall>name d p. (name, d) \<in> set (for_target_os (h a))
                \<and> select_package (self_installed_packages self0) name d = Some p
                \<longrightarrow> (\<exists>t. resolve self0 p = Some t \<and> matched h d t))
             \<longrightarrow> error_log env' = error_log env"
    by simp_all
  have targets: "set (map snd deps) = selected_edges for_target_os h self0 `` {a}"
  proof (intro set_eqI iffI)
    fix t
    assume "t \<in> set (map snd deps)"
    then obtain d where "(d, t) \<in> set deps" by auto
    with f(4) obtain name p where "(name, d) \<in> set (for_target_os (h a))"
      "select_package (self_installed_packages self0) name d = Some p"
      "resolve self0 p = Some t" "source_manifest (h t) \<noteq> None"
      by auto
    with m False have "(a, t) \<in> selected_edges for_target_os h self0"
      unfolding selected_edges_def by blast
    then show "t \<in> selected_edges for_target_os h self0 `` {a}" by simp
  next
    fix t
    assume "t \<in> selected_edges for_target_os h self0 `` {a}"
    then obtain name d p where "(name, d) \<in> set (for_target_os (h a))"
      "select_package (self_installed_packages self0) name d = Some p"
      "resolve self0 p = Some t" "source_manifest (h t) \<noteq> None"
      unfolding selected_edges_def by auto
    with f(4) have "(d, t) \<in> set deps" by blast
    then show "t \<in> set (map snd deps)" by force
  qed
  have ok: "error_log env' = error_log env \<and> (\<forall>d t. (d, t) \<in> set deps \<longrightarrow> matched h d t)"
    if d: "selected_resolve for_target_os h self0 a"
  proof -
    have each: "\<exists>t. resolve self0 p = Some t \<and> matched h d t"
      if "(name, d) \<in> set (for_target_os (h a))"
        and "select_package (self_installed_packages self0) name d = Some p" for name d p
      using d that m False unfolding selected_resolve_def matched_def by blast
    then have "error_log env' = error_log env" using f(5) by blast
    moreover have "matched h d t" if "(d, t) \<in> set deps" for d t
    proof -
      from that f(4) obtain name p where "(name, d) \<in> set (for_target_os (h a))"
        "select_package (self_installed_packages self0) name d = Some p"
        "resolve self0 p = Some t"
        by auto
      with each [of name d p] show ?thesis by auto
    qed
    ultimately show ?thesis by blast
  qed
  from run f(1,2,3) targets ok show ?thesis by blast
qed

lemma add_dependents_ok:
  "dependents_ok h app_dependents \<Longrightarrow> \<forall>d t. (d, t) \<in> set deps \<longrightarrow> matched h d t
     \<Longrightarrow> dependents_ok h (add_dependents a deps app_dependents)"
proof (induction deps arbitrary: app_dependents)
  case Nil
  then show ?case by simp
next
  case (Cons x deps)
  obtain d t where x: "x = (d, t)" by (cases x)
  let ?old = "case map_of app_dependents t of None \<Rightarrow> [] | Some dependents \<Rightarrow> dependents"
  from Cons.prems(2) x have mt: "matched h d t" by simp
  have old: "\<forall>d' x'. (d', x') \<in> set ?old \<longrightarrow> matched h d' t"
  proof (cases "map_of app_dependents t")
    case None
    then show ?thesis by simp
  next
    case (Some ds)
    then have "(t, ds) \<in> set app_dependents" by (rule map_of_SomeD)
    with Cons.prems(1) Some show ?thesis unfolding dependents_ok_def by auto
  qed
  have "dependents_ok h (od_set t (?old @ [(d, a)]) app_dependents)"
    unfolding dependents_ok_def
  proof (intro allI impI)
    fix t' ds
    assume "(t', ds) \<in> set (od_set t (?old @ [(d, a)]) app_dependents)"
    with set_od_set [of t "?old @ [(d, a)]" app_dependents]
    have "(t', ds) = (t, ?old @ [(d, a)]) \<or> (t', ds) \<in> set app_dependents" by blast
    then show "source_manifest (h t') \<noteq> None \<and> (\<forall>d x. (d, x) \<in> set ds \<longrightarrow> matched h d t')"
    proof
      assume "(t', ds) = (t, ?old @ [(d, a)])"
      with mt old show ?thesis by (auto simp: matched_def)
    next
      assume "(t', ds) \<in> set app_dependents"
      with Cons.prems(1) show ?thesis unfolding dependents_ok_def by blast
    qed
  qed
  moreover from Cons.prems(2) have "\<forall>d t. (d, t) \<in> set deps \<longrightarrow> matched h d t" by simp
  ultimately show ?case using Cons.IH x by simp
qed

lemma check_dependents_ok:
  "\<forall>d x. (d, x) \<in> set ds \<longrightarrow> version_match d version
     \<Longrightarrow> error_log (check_dependents h' t version ds env) = error_log env"
proof (induction ds arbitrary: env)
  case Nil
  then show ?case by simp
next
  case (Cons x ds)
  obtain d y where x: "x = (d, y)" by (cases x)
  from Cons.prems x have now: "version_match d version"
    and later: "\<forall>d x. (d, x) \<in> set ds \<longrightarrow> version_match d version"
    by auto
  from now x Cons.IH [OF later, of env] show ?case by simp
qed

lemma check_dependencies_ok:
  assumes heap: "\<forall>t. source_manifest (h' t) = source_manifest (h t)"
  shows "dependents_ok h app_dependents
    \<Longrightarrow> \<exists>env'. check_dependencies h' app_dependents env = Inr env'
              \<and> error_log env' = error_log env"
proof (induction app_dependents arbitrary: env)
  case Nil
  then show ?case by simp
next
  case (Cons x app_dependents)
  obtain t ds where x: "x = (t, ds)" by (cases x)
  have "(t, ds) \<in> set (x # app_dependents)" using x by simp
  with Cons.prems have here: "source_manifest (h t) \<noteq> None"
    "\<forall>d y. (d, y) \<in> set ds \<longrightarrow> matched h d t"
    unfolding dependents_ok_def by blast+
  from here(1) obtain m where m: "source_manifest (h t) = Some m" by auto
  from here(2) m have "\<forall>d y. (d, y) \<in> set ds \<longrightarrow> version_match d (info_id_version m)"
    unfolding matched_def by auto
  then have one: "error_log (check_dependents h' t (info_id_version m) ds env) = error_log env"
    by (rule check_dependents_ok)
  from Cons.prems have "dependents_ok h app_dependents" unfolding dependents_ok_def by auto
  from Cons.IH [OF this, of "check_dependents h' t (info_id_version m) ds env"] one m heap x
  show ?case by simp
qed

lemma resolve_frame: "resolve (self\<lparr>self_dependents := x, self_graph := y\<rparr>) p = resolve self p"
  by (simp add: resolve_def cong: option.case_cong)

lemma set_ordered_set: "set (ordered_set xs) = set xs"
  by (induction xs) auto

lemma construction_invI:
  assumes "set (c_queue c) \<subseteq> (selected_edges for_target_os h self0)\<^sup>* `` {self_root self0}"
    and "set (map fst (self_graph (c_self c)))
           \<subseteq> (selected_edges for_target_os h self0)\<^sup>* `` {self_root self0}"
    and "self_root self0 \<in> set (c_queue c) \<union> set (map fst (self_graph (c_self c)))"
    and "\<forall>k t. k \<in> set (map fst (self_graph (c_self c)))
           \<and> (k, t) \<in> selected_edges for_target_os h self0
           \<longrightarrow> t \<in> set (map fst (self_graph (c_self c))) \<union> set (c_queue c)"
    and "\<forall>k. k \<in> set (map fst (self_graph (c_self c)))
           \<longrightarrow> set (neighbours (self_graph (c_self c)) k) = selected_edges for_target_os h self0 `` {k}"
    and "error_log (c_env c) = error_log env0"
    and "same_tables self0 (c_self c)"
    and "\<forall>a. source_manifest (c_store c a) = source_manifest (h a)"
    and "\<forall>a. a \<notin> set (map fst (self_graph (c_self c))) \<longrightarrow> c_store c a = h a"
    and "dependents_ok h (self_dependents (c_self c))"
    and "distinct (map fst (self_graph (c_self c)))"
  shows "construction_inv for_target_os h self0 env0 c"
  unfolding construction_inv_def Let_def using assms by blast

lemma construction_invD:
  assumes "construction_inv for_target_os h self0 env0 c"
  shows "set (c_queue c) \<subseteq> (selected_edges for_target_os h self0)\<^sup>* `` {self_root self0}"
    and "set (map fst (self_graph (c_self c)))
           \<subseteq> (selected_edges for_target_os h self0)\<^sup>* `` {self_root self0}"
    and "self_root self0 \<in> set (c_queue c) \<union> set (map fst (self_graph (c_self c)))"
    and "\<forall>k t. k \<in> set (map fst (self_graph (c_self c)))
           \<and> (k, t) \<in> selected_edges for_target_os h self0
           \<longrightarrow> t \<in> set (map fst (self_graph (c_self c))) \<union> set (c_queue c)"
    and "\<forall>k. k \<in> set (map fst (self_graph (c_self c)))
           \<longrightarrow> set (neighbours (self_graph (c_self c)) k) = selected_edges for_target_os h self0 `` {k}"
    and "error_log (c_env c) = error_log env0"
    and "same_tables self0 (c_self c)"
    and "\<forall>a. source_manifest (c_store c a) = source_manifest (h a)"
    and "\<forall>a. a \<notin> set (map fst (self_graph (c_self c))) \<longrightarrow> c_store c a = h a"
    and "dependents_ok h (self_dependents (c_self c))"
    and "distinct (map fst (self_graph (c_self c)))"
  using assms unfolding construction_inv_def Let_def by blast+

lemma reach_in_universe:
  "(self_root self0, t) \<in> (selected_edges for_target_os h self0)\<^sup>* \<Longrightarrow> t \<in> universe self0"
proof (induction rule: rtrancl_induct)
  case base
  then show ?case by (simp add: universe_def)
next
  case (step y z)
  from step(2) obtain p where "resolve self0 p = Some z" unfolding selected_edges_def by auto
  then show ?case by (rule resolve_in_universe)
qed

lemma add_source_round_inv:
  assumes ok: "\<forall>a. (self_root self0, a) \<in> (selected_edges for_target_os h self0)\<^sup>* \<longrightarrow>
                 source_manifest (h a) \<noteq> None \<and> selected_resolve for_target_os h self0 a"
    and inv: "construction_inv for_target_os h self0 env0 c"
    and q: "c_queue c \<noteq> []"
  shows "\<exists>c'. add_source_round for_target_os c = Inr c'
     \<and> construction_inv for_target_os h self0 env0 c'
     \<and> ((card (universe self0 - set (map fst (self_graph (c_self c')))), length (c_queue c')),
         (card (universe self0 - set (map fst (self_graph (c_self c)))), length (c_queue c)))
           \<in> less_than <*lex*> less_than"
proof -
  let ?E = "selected_edges for_target_os h self0"
  let ?R = "?E\<^sup>* `` {self_root self0}"
  let ?g = "self_graph (c_self c)"
  let ?keys = "set (map fst ?g)"
  note i = construction_invD [OF inv]
  from q obtain a others where rq: "rev (c_queue c) = a # others"
    by (cases "rev (c_queue c)") auto
  then have cq: "c_queue c = rev others @ [a]"
    by (metis rev.simps(2) rev_rev_ident)
  then have sq: "set (c_queue c) = insert a (set others)" by auto
  show ?thesis
  proof (cases "a \<in> ?keys")
    case True
    let ?c' = "c\<lparr>c_queue := rev others\<rparr>"
    have run: "add_source_round for_target_os c = Inr ?c'"
      using rq True by (simp add: add_source_round_def)
    have "construction_inv for_target_os h self0 env0 ?c'"
    proof (rule construction_invI)
      show "set (c_queue ?c') \<subseteq> ?R" using i(1) sq by auto
      show "set (map fst (self_graph (c_self ?c'))) \<subseteq> ?R" using i(2) by simp
      show "self_root self0 \<in> set (c_queue ?c') \<union> set (map fst (self_graph (c_self ?c')))"
        using i(3) sq True by auto
      show "\<forall>k t. k \<in> set (map fst (self_graph (c_self ?c'))) \<and> (k, t) \<in> ?E
              \<longrightarrow> t \<in> set (map fst (self_graph (c_self ?c'))) \<union> set (c_queue ?c')"
        using i(4) sq True by auto
      show "\<forall>k. k \<in> set (map fst (self_graph (c_self ?c')))
              \<longrightarrow> set (neighbours (self_graph (c_self ?c')) k) = ?E `` {k}"
        using i(5) by simp
      show "error_log (c_env ?c') = error_log env0" using i(6) by simp
      show "same_tables self0 (c_self ?c')" using i(7) by simp
      show "\<forall>a. source_manifest (c_store ?c' a) = source_manifest (h a)" using i(8) by simp
      show "\<forall>a. a \<notin> set (map fst (self_graph (c_self ?c'))) \<longrightarrow> c_store ?c' a = h a"
        using i(9) by simp
      show "dependents_ok h (self_dependents (c_self ?c'))" using i(10) by simp
      show "distinct (map fst (self_graph (c_self ?c')))" using i(11) by simp
    qed
    moreover have "length (c_queue ?c') < length (c_queue c)" using cq by simp
    ultimately show ?thesis using run by simp
  next
    case False
    from i(1) sq have aR: "(self_root self0, a) \<in> ?E\<^sup>*" by auto
    with ok obtain m where m: "source_manifest (h a) = Some m"
      and decl: "selected_resolve for_target_os h self0 a"
      by auto
    from i(9) False have same: "c_store c a = h a" by simp
    from get_dependencies_props [OF m same i(8) i(7), of for_target_os "c_env c"]
    obtain self' env' deps where
      gd: "get_dependencies for_target_os (c_store c) a (c_self c, c_env c) = Inr (self', env', deps)"
      and tables: "same_tables self0 self'"
      and graph: "self_graph self' = ?g"
      and dependents: "self_dependents self' = self_dependents (c_self c)"
      and targets: "set (map snd deps) = ?E `` {a}"
      and log: "error_log env' = error_log (c_env c)"
      and match: "\<forall>d t. (d, t) \<in> set deps \<longrightarrow> matched h d t"
      using decl by blast
    let ?g' = "od_set a (ordered_set (map snd deps)) ?g"
    let ?c' = "\<lparr>c_queue = rev (map snd deps) @ rev others,
               c_self = self'\<lparr>self_dependents := add_dependents a deps (self_dependents self'),
                               self_graph := od_set a (ordered_set (map snd deps)) (self_graph self')\<rparr>,
               c_store = (c_store c)(a := (c_store c a)\<lparr>source_dependencies := deps\<rparr>),
               c_env = env'\<rparr>"
    have run: "add_source_round for_target_os c = Inr ?c'"
      using rq False gd by (simp add: add_source_round_def)
    have keys': "set (map fst (self_graph (c_self ?c'))) = insert a ?keys"
      using graph keys_od_set [of a "ordered_set (map snd deps)" ?g] by simp
    have queue': "set (c_queue ?c') = ?E `` {a} \<union> set others"
      using targets by auto
    have nb: "neighbours (self_graph (c_self ?c')) k
                = (if k = a then ordered_set (map snd deps) else neighbours ?g k)" for k
      using graph by (simp add: neighbours_def map_of_od_set)
    have step: "t \<in> ?R" if "(a, t) \<in> ?E" for t
      using aR that by (auto intro: rtrancl_into_rtrancl)
    have "construction_inv for_target_os h self0 env0 ?c'"
    proof (rule construction_invI)
      show "set (c_queue ?c') \<subseteq> ?R"
        unfolding queue' using step i(1) sq by auto
      show "set (map fst (self_graph (c_self ?c'))) \<subseteq> ?R"
        unfolding keys' using i(2) aR by auto
      show "self_root self0 \<in> set (c_queue ?c') \<union> set (map fst (self_graph (c_self ?c')))"
        unfolding keys' queue' using i(3) sq by auto
      show "\<forall>k t. k \<in> set (map fst (self_graph (c_self ?c'))) \<and> (k, t) \<in> ?E
              \<longrightarrow> t \<in> set (map fst (self_graph (c_self ?c'))) \<union> set (c_queue ?c')"
        unfolding keys' queue' using i(4) sq by auto
      show "\<forall>k. k \<in> set (map fst (self_graph (c_self ?c')))
              \<longrightarrow> set (neighbours (self_graph (c_self ?c')) k) = ?E `` {k}"
        unfolding keys' nb using i(5) targets False by (auto simp: set_ordered_set)
      show "error_log (c_env ?c') = error_log env0" using i(6) log by simp
      show "same_tables self0 (c_self ?c')"
        using tables by (simp add: same_tables_def resolve_frame)
      show "\<forall>a. source_manifest (c_store ?c' a) = source_manifest (h a)"
        using i(8) by simp
      show "\<forall>b. b \<notin> set (map fst (self_graph (c_self ?c'))) \<longrightarrow> c_store ?c' b = h b"
        unfolding keys' using i(9) by simp
      show "dependents_ok h (self_dependents (c_self ?c'))"
        using add_dependents_ok [OF _ match, of "self_dependents self'" a] i(10) dependents
        by simp
      show "distinct (map fst (self_graph (c_self ?c')))"
        using i(11) graph distinct_od_set [of ?g a "ordered_set (map snd deps)"] by simp
    qed
    moreover have "card (universe self0 - set (map fst (self_graph (c_self ?c'))))
                     < card (universe self0 - ?keys)"
    proof -
      from aR have "a \<in> universe self0" by (rule reach_in_universe)
      with False have "a \<in> universe self0 - ?keys" by simp
      then have "card (universe self0 - ?keys - {a}) < card (universe self0 - ?keys)"
        using finite_universe [of self0] by (intro card_Diff1_less) auto
      moreover have "universe self0 - insert a ?keys = universe self0 - ?keys - {a}" by auto
      ultimately show ?thesis unfolding keys' by simp
    qed
    ultimately show ?thesis using run by simp
  qed
qed

lemma add_source_returns:
  assumes ok: "\<forall>a. (self_root self0, a) \<in> (selected_edges for_target_os h self0)\<^sup>* \<longrightarrow>
                 source_manifest (h a) \<noteq> None \<and> selected_resolve for_target_os h self0 a"
    and inv: "construction_inv for_target_os h self0 env0 c0"
  shows "\<exists>c. add_source for_target_os c0 = Some (Inr c)
           \<and> construction_inv for_target_os h self0 env0 c \<and> c_queue c = []"
proof -
  let ?b = "\<lambda>st. case st of Inl e \<Rightarrow> False | Inr c' \<Rightarrow> length (c_queue c') > 0"
  let ?body = "\<lambda>st. case st of Inl e \<Rightarrow> Inl e | Inr c' \<Rightarrow> add_source_round for_target_os c'"
  let ?P = "\<lambda>st. \<exists>c. st = Inr c \<and> construction_inv for_target_os h self0 env0 c"
  let ?f = "\<lambda>st. case st of
               Inl e \<Rightarrow> (0::nat, 0::nat)
             | Inr c \<Rightarrow> (card (universe self0 - set (map fst (self_graph (c_self c)))),
                         length (c_queue c))"
  have round: "?P (?body st) \<and> (?f (?body st), ?f st) \<in> less_than <*lex*> less_than"
    if "?P st \<and> ?b st" for st
  proof -
    from that obtain c where c: "st = Inr c" "construction_inv for_target_os h self0 env0 c"
      "c_queue c \<noteq> []"
      by auto
    from add_source_round_inv [OF ok c(2,3)] obtain c' where
      "add_source_round for_target_os c = Inr c'"
      "construction_inv for_target_os h self0 env0 c'"
      "((card (universe self0 - set (map fst (self_graph (c_self c')))), length (c_queue c')),
         (card (universe self0 - set (map fst (self_graph (c_self c)))), length (c_queue c)))
           \<in> less_than <*lex*> less_than"
      by blast
    with c(1) show ?thesis by simp
  qed
  have wf: "wf (inv_image (less_than <*lex*> less_than) ?f)"
    by (intro wf_inv_image wf_lex_prod wf_less_than)
  have smaller: "(?body st, st) \<in> inv_image (less_than <*lex*> less_than) ?f"
    if "?P st \<and> ?b st" for st
    using round [OF that] by (simp add: inv_image_def)
  have keep: "?P (?body st)" if "?P st \<and> ?b st" for st
    using round [OF that] by blast
  have start: "?P (Inr c0)" using inv by simp
  from wf_rel_while_option_Some [of "inv_image (less_than <*lex*> less_than) ?f" ?P ?b ?body,
         OF wf smaller keep start]
  obtain t where t: "while_option ?b ?body (Inr c0) = Some t" by blast
  have keep': "?P (?body st)" if "?P st" and "?b st" for st
    using keep [of st] that by blast
  from while_option_rule [of ?P ?b ?body, OF keep' t start]
  obtain c where c: "t = Inr c" "construction_inv for_target_os h self0 env0 c" by blast
  from while_option_stop [OF t] c(1) have "c_queue c = []" by simp
  with t c show ?thesis by (simp add: add_source_def)
qed

lemma acyclic_by_rank:
  assumes "\<forall>a b. (a, b) \<in> E \<longrightarrow> rank a < (rank b :: nat)"
  shows "(a, a) \<notin> E\<^sup>+"
proof
  assume "(a, a) \<in> E\<^sup>+"
  moreover have "(x, y) \<in> E\<^sup>+ \<Longrightarrow> rank x < rank y" for x y
  proof (induction rule: trancl_induct)
    case (base y)
    with assms show ?case by blast
  next
    case (step y z)
    with assms have "rank y < rank z" by blast
    with step show ?case by simp
  qed
  ultimately have "rank a < rank a" by blast
  then show False by simp
qed

section \<open>What the construction builds\<close>

text \<open>
  The construction returns when the edges it follows are acyclic and every package it
  selects resolves to a source with a manifest of a matching version; it logs no error,
  and the keys of the graph are the sources that the root reaches along those edges.
\<close>

lemma init_builds_selected_closure:
  assumes ok: "\<forall>a. (app_source, a)
                   \<in> (selected_edges for_target_os h
                        (new_graph h app_source repository_sources installed_packages))\<^sup>*
                 \<longrightarrow> source_manifest (h a) \<noteq> None
                     \<and> selected_resolve for_target_os h
                         (new_graph h app_source repository_sources installed_packages) a"
    and acyclic: "\<forall>a. (a, a)
                   \<notin> (selected_edges for_target_os h
                        (new_graph h app_source repository_sources installed_packages))\<^sup>+"
    and fuel: "length (source_dependency_sources (h app_source)) + length repository_sources + 1 < n"
  shows "\<exists>self h' env'.
      init n for_target_os h app_source repository_sources installed_packages env
        = Some (Inr (self, h', env'))
    \<and> error_log env' = error_log env
    \<and> set (map fst (self_graph self))
        = (selected_edges for_target_os h
             (new_graph h app_source repository_sources installed_packages))\<^sup>* `` {app_source}
    \<and> (\<forall>k \<in> set (map fst (self_graph self)).
          set (neighbours (self_graph self) k)
            = selected_edges for_target_os h
                (new_graph h app_source repository_sources installed_packages) `` {k})"
proof -
  let ?self0 = "new_graph h app_source repository_sources installed_packages"
  let ?E = "selected_edges for_target_os h ?self0"
  let ?R = "?E\<^sup>* `` {app_source}"
  let ?c0 = "\<lparr>c_queue = [app_source], c_self = ?self0, c_store = h, c_env = env\<rparr>"
  have root: "self_root ?self0 = app_source" by (simp add: new_graph_def)
  have ok': "\<forall>a. (self_root ?self0, a) \<in> ?E\<^sup>* \<longrightarrow>
               source_manifest (h a) \<noteq> None \<and> selected_resolve for_target_os h ?self0 a"
    using ok root by simp
  have inv0: "construction_inv for_target_os h ?self0 env ?c0"
    by (rule construction_invI)
       (simp_all add: root new_graph_def same_tables_def dependents_ok_def)
  from add_source_returns [OF ok' inv0] obtain c where
    run: "add_source for_target_os ?c0 = Some (Inr c)"
    and inv: "construction_inv for_target_os h ?self0 env c"
    and empty: "c_queue c = []"
    by blast
  note i = construction_invD [OF inv]
  let ?g = "self_graph (c_self c)"
  let ?keys = "set (map fst ?g)"
  have closed: "t \<in> ?keys" if "(app_source, t) \<in> ?E\<^sup>*" for t
    using that
  proof (induction rule: rtrancl_induct)
    case base
    from i(3) empty root show ?case by simp
  next
    case (step y z)
    with i(4) empty show ?case by auto
  qed
  have keys: "?keys = ?R"
    using i(2) closed root by auto
  have nbs: "\<forall>k \<in> ?keys. set (neighbours ?g k) = ?E `` {k}"
    using i(5) by blast
  have edges_sub: "edges ?g \<subseteq> ?E"
  proof
    fix x
    assume x: "x \<in> edges ?g"
    obtain a b where ab: "x = (a, b)" by (cases x)
    with x have b: "b \<in> set (neighbours ?g a)" by (simp add: edges_def)
    then have "a \<in> ?keys" using edge_source_is_key [of a b ?g] by (simp add: edges_def)
    with nbs b ab show "x \<in> ?E" by auto
  qed
  have not_cyclic: "\<not> cyclic ?g"
  proof
    assume "cyclic ?g"
    then obtain a where "(a, a) \<in> (edges ?g)\<^sup>+" unfolding cyclic_def by blast
    with edges_sub have "(a, a) \<in> ?E\<^sup>+" by (meson trancl_mono)
    with acyclic show False by blast
  qed
  have nodes_sub: "graph_nodes ?g \<subseteq> universe ?self0"
  proof
    fix b
    assume "b \<in> graph_nodes ?g"
    then consider "b \<in> ?keys" | k ns where "(k, ns) \<in> set ?g" "b \<in> set ns"
      unfolding graph_nodes_def by auto
    then have "(self_root ?self0, b) \<in> ?E\<^sup>*"
    proof cases
      case 1
      with keys root show ?thesis by simp
    next
      case 2
      from 2(1) i(11) have "map_of ?g k = Some ns" by simp
      with 2(2) have b: "b \<in> set (neighbours ?g k)" by (simp add: neighbours_def)
      from 2(1) have k: "k \<in> ?keys" by force
      with nbs b have "(k, b) \<in> ?E" by auto
      moreover from k keys root have "(self_root ?self0, k) \<in> ?E\<^sup>*" by simp
      ultimately show ?thesis by (rule rtrancl_into_rtrancl [rotated])
    qed
    then show "b \<in> universe ?self0" by (rule reach_in_universe)
  qed
  have "card (graph_nodes ?g) \<le> card (universe ?self0)"
    using nodes_sub finite_universe by (rule card_mono [rotated])
  also have "\<dots> \<le> length (self_dependency_sources ?self0)
                      + length (self_repository_sources ?self0) + 1"
    by (rule card_universe)
  also have "\<dots> < n" using fuel by (simp add: new_graph_def)
  finally have bound: "card (graph_nodes ?g) < n" .
  have "is_cyclic n (c_self c) = Some (cyclic ?g)"
    unfolding is_cyclic_def using bound by (rule any_visit_from_keys) simp
  with not_cyclic have cyc: "is_cyclic n (c_self c) = Some False" by simp
  from check_dependencies_ok [OF i(8) i(10), of "c_env c"] obtain env' where
    chk: "check_dependencies (c_store c) (self_dependents (c_self c)) (c_env c) = Inr env'"
    and log: "error_log env' = error_log (c_env c)"
    by blast
  have "init n for_target_os h app_source repository_sources installed_packages env
          = Some (Inr (c_self c, c_store c, env'))"
    using run cyc chk by (simp add: init_def final_checks_def)
  moreover have "error_log env' = error_log env" using log i(6) by simp
  ultimately show ?thesis using keys nbs by blast
qed


text \<open>
  The choices of the code against the words of the specification: \<open>select_package\<close> gives
  the pinned package, and without one the match of the index; \<open>resolve\<close> looks the package up
  in the app's own dependency sources first and in the repository after them.
\<close>

lemma select_package_iff:
  "(select_package installed name d = Some p) = (pins d p \<or> index_match installed name d p)"
proof (cases "package d")
  case None
  then show ?thesis
    by (cases installed)
       (auto simp: select_package_def truthy_def installed_package_def pins_def index_match_def
             split: option.splits)
next
  case (Some q)
  then show ?thesis
    by (cases installed)
       (auto simp: select_package_def truthy_def installed_package_def pins_def index_match_def
             split: option.splits)
qed

lemma resolve_new_graph:
  "resolve (new_graph h app_source repository_sources installed) p
   = map_of (source_dependency_sources (h app_source) @ repository_sources) p"
  by (simp add: resolve_def new_graph_def map_add_def split: option.splits)

lemma selected_edges_declared:
  assumes "sources = source_dependency_sources (h app_source) @ repository_sources"
  shows "selected_edges for_target_os h (new_graph h app_source repository_sources installed)
         \<subseteq> static_dependencies for_target_os h sources
            \<union> indexed_dependencies for_target_os h sources installed"
proof
  fix x
  assume x: "x \<in> selected_edges for_target_os h
                    (new_graph h app_source repository_sources installed)"
  obtain a t where at: "x = (a, t)" by (cases x)
  from x at obtain m name d p where
    f: "source_manifest (h a) = Some m" "manifest_dependencies m \<noteq> None"
       "(name, d) \<in> set (for_target_os (h a))"
       "select_package installed name d = Some p"
       "resolve (new_graph h app_source repository_sources installed) p = Some t"
    by (auto simp: selected_edges_def new_graph_def)
  from f(1-3) have decl: "declares for_target_os h a name d"
    unfolding declares_def by blast
  from f(5) assms have src: "map_of sources p = Some t"
    by (simp add: resolve_new_graph)
  from f(4) consider "pins d p" | "index_match installed name d p"
    unfolding select_package_iff by blast
  then show "x \<in> static_dependencies for_target_os h sources
                 \<union> indexed_dependencies for_target_os h sources installed"
  proof cases
    case 1
    with decl src at show ?thesis unfolding static_dependencies_def by blast
  next
    case 2
    with decl src at show ?thesis unfolding indexed_dependencies_def by blast
  qed
qed

lemma declared_selected:
  assumes "sources = source_dependency_sources (h app_source) @ repository_sources"
    and "static_satisfied for_target_os h sources a"
    and "indexed_satisfied for_target_os h sources installed a"
    and "(a, t) \<in> static_dependencies for_target_os h sources
                  \<union> indexed_dependencies for_target_os h sources installed"
  shows "(a, t) \<in> selected_edges for_target_os h
                     (new_graph h app_source repository_sources installed)"
proof -
  from assms(4) obtain name d p where
    decl: "declares for_target_os h a name d"
    and chosen: "pins d p \<or> index_match installed name d p"
    and src: "map_of sources p = Some t"
    unfolding static_dependencies_def indexed_dependencies_def by blast
  from decl chosen assms(2,3) have "resolves_and_matches h sources d p"
    unfolding static_satisfied_def indexed_satisfied_def by blast
  with src have manifest: "source_manifest (h t) \<noteq> None"
    by (auto simp: resolves_and_matches_def)
  from decl obtain m where
    m: "source_manifest (h a) = Some m" "manifest_dependencies m \<noteq> None"
       "(name, d) \<in> set (for_target_os (h a))"
    unfolding declares_def by blast
  from chosen have sel: "select_package (self_installed_packages
      (new_graph h app_source repository_sources installed)) name d = Some p"
    by (simp add: select_package_iff new_graph_def)
  from src assms(1) have res:
    "resolve (new_graph h app_source repository_sources installed) p = Some t"
    by (simp add: resolve_new_graph)
  from m sel res manifest show ?thesis
    unfolding selected_edges_def by blast
qed

lemma satisfied_selected_resolve:
  assumes "sources = source_dependency_sources (h app_source) @ repository_sources"
    and "static_satisfied for_target_os h sources a"
    and "indexed_satisfied for_target_os h sources installed a"
  shows "selected_resolve for_target_os h
           (new_graph h app_source repository_sources installed) a"
  unfolding selected_resolve_def
proof (intro allI impI)
  fix m name d p
  assume f: "source_manifest (h a) = Some m \<and> manifest_dependencies m \<noteq> None
             \<and> (name, d) \<in> set (for_target_os (h a))
             \<and> select_package (self_installed_packages
                  (new_graph h app_source repository_sources installed)) name d = Some p"
  then have decl: "declares for_target_os h a name d"
    unfolding declares_def by blast
  from f have "select_package installed name d = Some p" by (simp add: new_graph_def)
  then have "pins d p \<or> index_match installed name d p"
    by (simp add: select_package_iff)
  with decl assms(2,3) have "resolves_and_matches h sources d p"
    unfolding static_satisfied_def indexed_satisfied_def by blast
  then show "\<exists>t m'. resolve (new_graph h app_source repository_sources installed) p = Some t
                  \<and> source_manifest (h t) = Some m' \<and> version_match d (info_id_version m')"
    using assms(1) by (simp add: resolves_and_matches_def resolve_new_graph)
qed

text \<open>
  On the sources that the root reaches, the edges the construction follows are the
  declared dependencies that pin a package or have a match in the index.
\<close>

lemma selected_closure:
  assumes sources: "sources = source_dependency_sources (h app_source) @ repository_sources"
    and ok: "\<forall>a. (app_source, a)
                   \<in> (static_dependencies for_target_os h sources
                       \<union> indexed_dependencies for_target_os h sources installed)\<^sup>*
                 \<longrightarrow> source_manifest (h a) \<noteq> None
                     \<and> static_satisfied for_target_os h sources a
                     \<and> indexed_satisfied for_target_os h sources installed a"
  shows "(selected_edges for_target_os h
            (new_graph h app_source repository_sources installed))\<^sup>* `` {app_source}
         = (static_dependencies for_target_os h sources
            \<union> indexed_dependencies for_target_os h sources installed)\<^sup>* `` {app_source}"
    and "\<forall>k. (app_source, k)
               \<in> (static_dependencies for_target_os h sources
                   \<union> indexed_dependencies for_target_os h sources installed)\<^sup>*
             \<longrightarrow> selected_edges for_target_os h
                   (new_graph h app_source repository_sources installed) `` {k}
                 = (static_dependencies for_target_os h sources
                    \<union> indexed_dependencies for_target_os h sources installed) `` {k}"
proof -
  let ?E = "selected_edges for_target_os h (new_graph h app_source repository_sources installed)"
  let ?D = "static_dependencies for_target_os h sources
            \<union> indexed_dependencies for_target_os h sources installed"
  have sub: "?E \<subseteq> ?D" using sources by (rule selected_edges_declared)
  have into: "(a, t) \<in> ?E" if "(app_source, a) \<in> ?D\<^sup>*" and "(a, t) \<in> ?D" for a t
  proof -
    from ok that(1) have "static_satisfied for_target_os h sources a"
      and "indexed_satisfied for_target_os h sources installed a" by blast+
    with sources show ?thesis using that(2) by (rule declared_selected)
  qed
  have reach: "(app_source, a) \<in> ?E\<^sup>*" if "(app_source, a) \<in> ?D\<^sup>*" for a
    using that
  proof (induction rule: rtrancl_induct)
    case base
    show ?case by simp
  next
    case (step y z)
    from into [OF step(1) step(2)] have "(y, z) \<in> ?E" .
    with step(3) show ?case by (rule rtrancl_into_rtrancl)
  qed
  from sub have "?E\<^sup>* \<subseteq> ?D\<^sup>*" by (rule rtrancl_mono)
  with reach show "?E\<^sup>* `` {app_source} = ?D\<^sup>* `` {app_source}" by blast
  from sub into show "\<forall>k. (app_source, k) \<in> ?D\<^sup>* \<longrightarrow> ?E `` {k} = ?D `` {k}" by blast
qed

lemma selected_premises:
  assumes sources: "sources = source_dependency_sources (h app_source) @ repository_sources"
    and ok: "\<forall>a. (app_source, a)
                   \<in> (static_dependencies for_target_os h sources
                       \<union> indexed_dependencies for_target_os h sources installed)\<^sup>*
                 \<longrightarrow> source_manifest (h a) \<noteq> None
                     \<and> static_satisfied for_target_os h sources a
                     \<and> indexed_satisfied for_target_os h sources installed a"
    and acyclic: "\<forall>a. (a, a) \<notin> (static_dependencies for_target_os h sources
                                  \<union> indexed_dependencies for_target_os h sources installed)\<^sup>+"
  shows "\<forall>a. (app_source, a)
               \<in> (selected_edges for_target_os h
                    (new_graph h app_source repository_sources installed))\<^sup>*
             \<longrightarrow> source_manifest (h a) \<noteq> None
                 \<and> selected_resolve for_target_os h
                     (new_graph h app_source repository_sources installed) a"
    and "\<forall>a. (a, a) \<notin> (selected_edges for_target_os h
                           (new_graph h app_source repository_sources installed))\<^sup>+"
proof -
  let ?E = "selected_edges for_target_os h (new_graph h app_source repository_sources installed)"
  let ?D = "static_dependencies for_target_os h sources
            \<union> indexed_dependencies for_target_os h sources installed"
  have sub: "?E \<subseteq> ?D" using sources by (rule selected_edges_declared)
  then have star: "?E\<^sup>* \<subseteq> ?D\<^sup>*" by (rule rtrancl_mono)
  show "\<forall>a. (app_source, a) \<in> ?E\<^sup>* \<longrightarrow> source_manifest (h a) \<noteq> None
              \<and> selected_resolve for_target_os h
                  (new_graph h app_source repository_sources installed) a"
  proof (intro allI impI)
    fix a
    assume "(app_source, a) \<in> ?E\<^sup>*"
    with star have "(app_source, a) \<in> ?D\<^sup>*" by blast
    with ok have m: "source_manifest (h a) \<noteq> None"
      and s: "static_satisfied for_target_os h sources a"
      and i: "indexed_satisfied for_target_os h sources installed a" by blast+
    from satisfied_selected_resolve [OF sources s i] m
    show "source_manifest (h a) \<noteq> None
          \<and> selected_resolve for_target_os h
              (new_graph h app_source repository_sources installed) a" by simp
  qed
  show "\<forall>a. (a, a) \<notin> ?E\<^sup>+"
  proof
    fix a
    show "(a, a) \<notin> ?E\<^sup>+"
    proof
      assume "(a, a) \<in> ?E\<^sup>+"
      with sub have "(a, a) \<in> ?D\<^sup>+" by (meson trancl_mono)
      with acyclic show False by blast
    qed
  qed
qed

text \<open>Without an index of installed packages no declaration has a match in it.\<close>

lemma indexed_dependencies_none:
  "indexed_dependencies for_target_os h sources None = {}"
  by (simp add: indexed_dependencies_def index_match_def)

text \<open>
  The example with an index of installed packages: the app pins the package of \<open>lib\<close>,
  which its own dependency sources resolve to source 1, and the index gives the package of
  \<open>base\<close>, which the repository resolves to source 2.
\<close>

lemma indexed_example_sources:
  "source_dependency_sources (indexed_heap 0) @ indexed_repository
   = [(''lib.tgz'', 1), (''lib.tgz'', 2), (''base.tgz'', 2)]"
  by (simp add: indexed_heap_def indexed_repository_def)

lemma indexed_example_declares:
  "declares all_declared indexed_heap a name d
   = (a = 0 \<and> ((name, d) = (''lib'', lib_dependency) \<or> (name, d) = (''base'', unpinned_dependency)))"
  by (auto simp: declares_def all_declared_def indexed_heap_def indexed_manifest_def
        leaf_manifest_def split: if_splits)

lemma indexed_example_pins:
  "pins lib_dependency p = (p = ''lib.tgz'')"
  "pins unpinned_dependency p = False"
  by (auto simp: pins_def lib_dependency_def unpinned_dependency_def)

lemma indexed_example_match:
  "index_match installed_index name lib_dependency p = False"
  "index_match installed_index ''base'' unpinned_dependency p = (p = ''base.tgz'')"
  by (auto simp: index_match_def indexed_example_pins installed_index_def)

lemma indexed_example_static:
  "static_dependencies all_declared indexed_heap
     (source_dependency_sources (indexed_heap 0) @ indexed_repository) = {(0, 1)}"
proof (intro set_eqI iffI)
  fix x
  assume "x \<in> static_dependencies all_declared indexed_heap
                  (source_dependency_sources (indexed_heap 0) @ indexed_repository)"
  then show "x \<in> {(0, 1)}"
    unfolding indexed_example_sources static_dependencies_def indexed_example_declares
    by (auto simp: indexed_example_pins)
next
  fix x :: "source \<times> source"
  assume "x \<in> {(0, 1)}"
  moreover have "declares all_declared indexed_heap 0 ''lib'' lib_dependency
                 \<and> pins lib_dependency ''lib.tgz''
                 \<and> map_of (source_dependency_sources (indexed_heap 0) @ indexed_repository)
                       ''lib.tgz'' = Some 1"
    unfolding indexed_example_sources indexed_example_declares
    by (simp add: indexed_example_pins)
  ultimately show "x \<in> static_dependencies all_declared indexed_heap
                         (source_dependency_sources (indexed_heap 0) @ indexed_repository)"
    unfolding static_dependencies_def by blast
qed

lemma indexed_example_indexed:
  "indexed_dependencies all_declared indexed_heap
     (source_dependency_sources (indexed_heap 0) @ indexed_repository) installed_index = {(0, 2)}"
proof (intro set_eqI iffI)
  fix x
  assume "x \<in> indexed_dependencies all_declared indexed_heap
                  (source_dependency_sources (indexed_heap 0) @ indexed_repository) installed_index"
  then show "x \<in> {(0, 2)}"
    unfolding indexed_example_sources indexed_dependencies_def indexed_example_declares
    by (auto simp: indexed_example_match)
next
  fix x :: "source \<times> source"
  assume "x \<in> {(0, 2)}"
  moreover have "declares all_declared indexed_heap 0 ''base'' unpinned_dependency
                 \<and> index_match installed_index ''base'' unpinned_dependency ''base.tgz''
                 \<and> map_of (source_dependency_sources (indexed_heap 0) @ indexed_repository)
                       ''base.tgz'' = Some 2"
    unfolding indexed_example_sources indexed_example_declares
    by (simp add: indexed_example_match)
  ultimately show "x \<in> indexed_dependencies all_declared indexed_heap
                         (source_dependency_sources (indexed_heap 0) @ indexed_repository)
                         installed_index"
    unfolding indexed_dependencies_def by blast
qed

lemma indexed_example_satisfied:
  "static_satisfied all_declared indexed_heap
     (source_dependency_sources (indexed_heap 0) @ indexed_repository) a"
  "indexed_satisfied all_declared indexed_heap
     (source_dependency_sources (indexed_heap 0) @ indexed_repository) installed_index a"
proof -
  let ?S = "source_dependency_sources (indexed_heap 0) @ indexed_repository"
  have lib: "resolves_and_matches indexed_heap ?S lib_dependency ''lib.tgz''"
    unfolding indexed_example_sources
    by (simp add: resolves_and_matches_def indexed_heap_def lib_dependency_def)
  have base: "resolves_and_matches indexed_heap ?S unpinned_dependency ''base.tgz''"
    unfolding indexed_example_sources
    by (simp add: resolves_and_matches_def indexed_heap_def unpinned_dependency_def)
  show "static_satisfied all_declared indexed_heap ?S a"
    unfolding static_satisfied_def indexed_example_declares
    using lib by (auto simp: indexed_example_pins)
  show "indexed_satisfied all_declared indexed_heap ?S installed_index a"
    unfolding indexed_satisfied_def indexed_example_declares
    using base by (auto simp: indexed_example_match)
qed

lemma indexed_example_manifest: "source_manifest (indexed_heap a) \<noteq> None"
  by (simp add: indexed_heap_def)

lemma leaves_closure:
  assumes "\<forall>x y. (x, y) \<in> E \<longrightarrow> x = a \<and> y \<in> T" and "a \<notin> T" and "\<forall>y \<in> T. (a, y) \<in> E"
  shows "E\<^sup>* `` {a} = insert a T" and "\<forall>x. (x, x) \<notin> E\<^sup>+"
proof -
  have reach: "y \<in> insert a T" if "(a, y) \<in> E\<^sup>*" for y
    using that by (induction rule: rtrancl_induct) (use assms(1) in auto)
  from reach assms(3) show "E\<^sup>* `` {a} = insert a T" by auto
  have step: "x = a \<and> y \<in> T" if "(x, y) \<in> E\<^sup>+" for x y
    using that
  proof (induction rule: trancl_induct)
    case (base y)
    with assms(1) show ?case by blast
  next
    case (step y z)
    from step(2) assms(1) have "y = a" by blast
    with step(3) assms(2) show ?case by blast
  qed
  show "\<forall>x. (x, x) \<notin> E\<^sup>+"
  proof
    fix x
    show "(x, x) \<notin> E\<^sup>+" using step [of x x] assms(2) by blast
  qed
qed

lemma indexed_example_closure:
  "({(0, 1)} \<union> {(0, 2)} :: (source \<times> source) set)\<^sup>* `` {0} = {0, 1, 2}"
  "\<forall>x. (x, x) \<notin> ({(0, 1)} \<union> {(0, 2)} :: (source \<times> source) set)\<^sup>+"
  "({(0, 1)} :: (source \<times> source) set)\<^sup>* `` {0} = {0, 1}"
  "\<forall>x. (x, x) \<notin> ({(0, 1)} :: (source \<times> source) set)\<^sup>+"
proof -
  have a: "\<forall>x y. (x, y) \<in> ({(0, 1)} \<union> {(0, 2)} :: (source \<times> source) set) \<longrightarrow> x = 0 \<and> y \<in> {1, 2}"
    by auto
  have b: "\<forall>x y. (x, y) \<in> ({(0, 1)} :: (source \<times> source) set) \<longrightarrow> x = 0 \<and> y \<in> {1}"
    by auto
  from leaves_closure(1) [OF a]
  show "({(0, 1)} \<union> {(0, 2)} :: (source \<times> source) set)\<^sup>* `` {0} = {0, 1, 2}" by simp
  from leaves_closure(2) [OF a]
  show "\<forall>x. (x, x) \<notin> ({(0, 1)} \<union> {(0, 2)} :: (source \<times> source) set)\<^sup>+" by simp
  from leaves_closure(1) [OF b]
  show "({(0, 1)} :: (source \<times> source) set)\<^sup>* `` {0} = {0, 1}" by simp
  from leaves_closure(2) [OF b]
  show "\<forall>x. (x, x) \<notin> ({(0, 1)} :: (source \<times> source) set)\<^sup>+" by simp
qed

text \<open>
  C5, as stated: the static dependencies of the example are acyclic, and each of them
  resolves to a concrete source of a matching version. The construction returns and logs
  no error, but the nodes of its graph are not the root and the sources it reaches through
  static dependencies: source 2 is a node, and the root reaches it only through the
  dependency \<open>base\<close>, which pins no package and is found in the index of installed packages.
\<close>

theorem construction_static_closure_counterexample:
  "static_premises all_declared indexed_heap
     (source_dependency_sources (indexed_heap 0) @ indexed_repository) 0
   \<and> constructed_errors
       (init 5 all_declared indexed_heap 0 indexed_repository installed_index example_env)
     = Some []
   \<and> constructed_nodes
       (init 5 all_declared indexed_heap 0 indexed_repository installed_index example_env)
     = Some {0, 1, 2}
   \<and> (static_dependencies all_declared indexed_heap
        (source_dependency_sources (indexed_heap 0) @ indexed_repository))\<^sup>* `` {0} = {0, 1}
   \<and> constructed_nodes
       (init 5 all_declared indexed_heap 0 indexed_repository installed_index example_env)
     \<noteq> Some ((static_dependencies all_declared indexed_heap
                (source_dependency_sources (indexed_heap 0) @ indexed_repository))\<^sup>* `` {0})"
proof -
  let ?S = "source_dependency_sources (indexed_heap 0) @ indexed_repository"
  let ?D = "static_dependencies all_declared indexed_heap ?S
            \<union> indexed_dependencies all_declared indexed_heap ?S installed_index"
  let ?E = "selected_edges all_declared indexed_heap
              (new_graph indexed_heap 0 indexed_repository installed_index)"
  have claimed: "static_premises all_declared indexed_heap ?S 0"
    unfolding static_premises_def indexed_example_static
    using indexed_example_closure(4) indexed_example_manifest indexed_example_satisfied(1)
    by blast
  have ok: "\<forall>a. (0, a) \<in> ?D\<^sup>* \<longrightarrow> source_manifest (indexed_heap a) \<noteq> None
              \<and> static_satisfied all_declared indexed_heap ?S a
              \<and> indexed_satisfied all_declared indexed_heap ?S installed_index a"
    using indexed_example_manifest indexed_example_satisfied by blast
  have acyclic: "\<forall>a. (a, a) \<notin> ?D\<^sup>+"
    unfolding indexed_example_static indexed_example_indexed
    by (rule indexed_example_closure(2))
  have fuel: "length (source_dependency_sources (indexed_heap 0)) + length indexed_repository + 1
              < 5"
    by (simp add: indexed_heap_def indexed_repository_def)
  from init_builds_selected_closure
         [OF selected_premises(1) [OF refl ok acyclic] selected_premises(2) [OF refl ok acyclic]
             fuel, of example_env]
  obtain self h' env' where r:
    "init 5 all_declared indexed_heap 0 indexed_repository installed_index example_env
       = Some (Inr (self, h', env'))"
    "error_log env' = error_log example_env"
    "set (map fst (self_graph self)) = ?E\<^sup>* `` {0}"
    by blast
  have "?E\<^sup>* `` {0} = ?D\<^sup>* `` {0}"
    using refl ok by (rule selected_closure(1))
  also have "\<dots> = {0, 1, 2}"
    unfolding indexed_example_static indexed_example_indexed
    by (rule indexed_example_closure(1))
  finally have keys: "set (map fst (self_graph self)) = {0, 1, 2}" using r(3) by simp
  have errors: "constructed_errors
       (init 5 all_declared indexed_heap 0 indexed_repository installed_index example_env)
     = Some []"
    using r(1,2) by (simp add: constructed_errors_def example_env_def)
  have nodes: "constructed_nodes
       (init 5 all_declared indexed_heap 0 indexed_repository installed_index example_env)
     = Some {0, 1, 2}"
    using r(1) keys by (simp add: constructed_nodes_def)
  have static: "(static_dependencies all_declared indexed_heap ?S)\<^sup>* `` {0} = {0, 1}"
    unfolding indexed_example_static by (rule indexed_example_closure(3))
  have differ: "({0, 1, 2} :: source set) \<noteq> {0, 1}"
  proof
    assume "({0, 1, 2} :: source set) = {0, 1}"
    then have "(2 :: source) \<in> {0, 1}" by blast
    then show False by simp
  qed
  have unequal: "constructed_nodes
       (init 5 all_declared indexed_heap 0 indexed_repository installed_index example_env)
     \<noteq> Some ((static_dependencies all_declared indexed_heap ?S)\<^sup>* `` {0})"
    unfolding nodes static using differ by (simp only: option.inject not_False_eq_True)
  from claimed errors nodes static unequal show ?thesis by (intro conjI)
qed

text \<open>
  C5, amended: let the declared dependencies that pin a package (the static dependencies)
  together with those that pin none and have a match in the index of installed packages be
  acyclic, and let every source that the root reaches through them have a manifest and
  declare only such dependencies as resolve to a concrete source, in the app's own
  dependency sources or else in the repository, whose version the declared range matches.
  Then, with a bound on the depth of the cycle check above the number of sources in the
  two dictionaries of sources, the construction returns and logs no error; the nodes of
  the graph are the root and all the sources it reaches through those dependencies, and
  the graph lists for every node its dependencies. Without an index of installed packages
  the nodes are the root and the sources it reaches through static dependencies.
\<close>

theorem construction_builds_closure:
  assumes sources: "sources = source_dependency_sources (h app_source) @ repository_sources"
    and ok: "\<forall>a. (app_source, a)
                   \<in> (static_dependencies for_target_os h sources
                       \<union> indexed_dependencies for_target_os h sources installed_packages)\<^sup>*
                 \<longrightarrow> source_manifest (h a) \<noteq> None
                     \<and> static_satisfied for_target_os h sources a
                     \<and> indexed_satisfied for_target_os h sources installed_packages a"
    and acyclic: "\<forall>a. (a, a) \<notin> (static_dependencies for_target_os h sources
                                  \<union> indexed_dependencies for_target_os h sources
                                      installed_packages)\<^sup>+"
    and fuel: "length (source_dependency_sources (h app_source)) + length repository_sources + 1 < n"
  shows "\<exists>self h' env'.
      init n for_target_os h app_source repository_sources installed_packages env
        = Some (Inr (self, h', env'))
    \<and> error_log env' = error_log env
    \<and> set (map fst (self_graph self))
        = (static_dependencies for_target_os h sources
           \<union> indexed_dependencies for_target_os h sources installed_packages)\<^sup>* `` {app_source}
    \<and> (\<forall>k \<in> set (map fst (self_graph self)).
          set (neighbours (self_graph self) k)
            = (static_dependencies for_target_os h sources
               \<union> indexed_dependencies for_target_os h sources installed_packages) `` {k})
    \<and> (installed_packages = None \<longrightarrow>
          set (map fst (self_graph self))
            = (static_dependencies for_target_os h sources)\<^sup>* `` {app_source})"
proof -
  let ?D = "static_dependencies for_target_os h sources
            \<union> indexed_dependencies for_target_os h sources installed_packages"
  let ?E = "selected_edges for_target_os h
              (new_graph h app_source repository_sources installed_packages)"
  from init_builds_selected_closure
         [OF selected_premises(1) [OF sources ok acyclic]
             selected_premises(2) [OF sources ok acyclic] fuel, of env]
  obtain self h' env' where r:
    "init n for_target_os h app_source repository_sources installed_packages env
       = Some (Inr (self, h', env'))"
    "error_log env' = error_log env"
    "set (map fst (self_graph self)) = ?E\<^sup>* `` {app_source}"
    "\<forall>k \<in> set (map fst (self_graph self)). set (neighbours (self_graph self) k) = ?E `` {k}"
    by blast
  have closure: "?E\<^sup>* `` {app_source} = ?D\<^sup>* `` {app_source}"
    using sources ok by (rule selected_closure(1))
  with r(3) have keys: "set (map fst (self_graph self)) = ?D\<^sup>* `` {app_source}" by simp
  have "\<forall>k. (app_source, k) \<in> ?D\<^sup>* \<longrightarrow> ?E `` {k} = ?D `` {k}"
    using sources ok by (rule selected_closure(2))
  with keys r(4)
  have nbs: "\<forall>k \<in> set (map fst (self_graph self)). set (neighbours (self_graph self) k) = ?D `` {k}"
    by auto
  have none: "installed_packages = None \<longrightarrow>
      set (map fst (self_graph self))
        = (static_dependencies for_target_os h sources)\<^sup>* `` {app_source}"
    using keys by (auto simp: indexed_dependencies_none)
  from r(1,2) keys nbs none show ?thesis by blast
qed

theorem construction_builds_closure_witness:
  "\<exists>self h' env'.
      init 5 all_declared indexed_heap 0 indexed_repository installed_index example_env
        = Some (Inr (self, h', env'))
    \<and> error_log env' = []
    \<and> set (map fst (self_graph self)) = {0, 1, 2}
    \<and> set (neighbours (self_graph self) 0) = {1, 2}"
proof -
  let ?S = "source_dependency_sources (indexed_heap 0) @ indexed_repository"
  let ?D = "static_dependencies all_declared indexed_heap ?S
            \<union> indexed_dependencies all_declared indexed_heap ?S installed_index"
  have ok: "\<forall>a. (0, a) \<in> ?D\<^sup>* \<longrightarrow> source_manifest (indexed_heap a) \<noteq> None
              \<and> static_satisfied all_declared indexed_heap ?S a
              \<and> indexed_satisfied all_declared indexed_heap ?S installed_index a"
    using indexed_example_manifest indexed_example_satisfied by blast
  have acyclic: "\<forall>a. (a, a) \<notin> ?D\<^sup>+"
    unfolding indexed_example_static indexed_example_indexed
    by (rule indexed_example_closure(2))
  have fuel: "length (source_dependency_sources (indexed_heap 0)) + length indexed_repository + 1
              < 5"
    by (simp add: indexed_heap_def indexed_repository_def)
  from construction_builds_closure [OF refl ok acyclic fuel, of example_env]
  obtain self h' env' where r:
    "init 5 all_declared indexed_heap 0 indexed_repository installed_index example_env
       = Some (Inr (self, h', env'))"
    "error_log env' = error_log example_env"
    "set (map fst (self_graph self)) = ?D\<^sup>* `` {0}"
    "\<forall>k \<in> set (map fst (self_graph self)). set (neighbours (self_graph self) k) = ?D `` {k}"
    by blast
  have R: "?D\<^sup>* `` {0} = {0, 1, 2}"
    unfolding indexed_example_static indexed_example_indexed
    by (rule indexed_example_closure(1))
  with r(3) have keys: "set (map fst (self_graph self)) = {0, 1, 2}" by simp
  then have "0 \<in> set (map fst (self_graph self))" by blast
  with r(4) have "set (neighbours (self_graph self) 0) = ?D `` {0}" by blast
  then have nb: "set (neighbours (self_graph self) 0) = {1, 2}"
    unfolding indexed_example_static indexed_example_indexed by auto
  from r(2) have "error_log env' = []" by (simp add: example_env_def)
  with r(1) keys nb show ?thesis by blast
qed

section \<open>Selection of the exclusion patterns\<close>

lemma difference_empty_iff:
  "finite workload \<Longrightarrow> (card (workload - excluded_roles) = 0) = (workload \<subseteq> excluded_roles)"
  by auto

lemma exclusion_patterns_filter:
  "finite workload \<Longrightarrow>
   exclusion_patterns workload =
     map fst (filter (\<lambda>(pattern, excluded_roles). workload \<subseteq> excluded_roles) exclusion_rule)"
  by (simp add: exclusion_patterns_def difference_empty_iff)

lemma exclusion_rule_patterns_distinct: "distinct (map fst exclusion_rule)"
  by (simp add: exclusion_rule_def)

lemma selected_iff_aux:
  assumes "distinct (map fst rules)" and "(p, r) \<in> set rules"
  shows "(p \<in> set (map fst (filter (\<lambda>(pattern, excluded_roles). Q excluded_roles) rules))) = Q r"
  using assms
proof (induction rules)
  case Nil
  then show ?case by simp
next
  case (Cons a rules)
  obtain p' r' where a: "a = (p', r')" by (cases a)
  show ?case
  proof (cases "p' = p")
    case True
    with Cons.prems a have "r' = r" and "p \<notin> fst ` set rules"
      by (auto simp: image_iff)
    with True a show ?thesis by (auto simp: image_iff)
  next
    case False
    with Cons a show ?thesis by auto
  qed
qed

text \<open>
  C6: the pattern of an exclusion rule is selected for a deployment specification's workload
  if and only if every workload of the specification is in the rule's set of excluded
  workloads (the difference \<^verbatim>\<open>workload - excluded_roles\<close> is empty); the selected patterns
  keep the order of the rule table.
\<close>

theorem exclusion_pattern_selected_iff:
  "finite workload \<Longrightarrow> (pattern, excluded_roles) \<in> set exclusion_rule \<Longrightarrow>
     (pattern \<in> set (exclusion_patterns workload)) = (workload \<subseteq> excluded_roles)
     \<and> (workload \<subseteq> excluded_roles) = (workload - excluded_roles = {})
     \<and> exclusion_patterns workload =
         map fst (filter (\<lambda>(p, r). workload \<subseteq> r) exclusion_rule)"
  using selected_iff_aux [OF exclusion_rule_patterns_distinct, of pattern excluded_roles
          "\<lambda>r. workload \<subseteq> r"]
  by (auto simp: exclusion_patterns_filter)

theorem exclusion_pattern_selected_iff_witness:
  "[Glob ''lookups''] \<notin> set (exclusion_patterns {''searchHead''})
   \<and> [Glob ''lookups''] \<in> set (exclusion_patterns {''forwarder''})
   \<and> exclusion_patterns {''searchHead''} =
       [[Glob ''app.manifest''], [Glob ''default'', Glob ''*.conf''],
        [Glob ''local'', Glob ''*.conf''], [Glob ''metadata'', Glob ''local.meta''],
        [Glob ''README'', exclude_conf_spec]]"
proof -
  have r: "([Glob ''lookups''], {''forwarder'', ''indexer''}) \<in> set exclusion_rule"
    by (simp add: exclusion_rule_def)
  have f1: "finite {''searchHead''}" and f2: "finite {''forwarder''}" by simp_all
  note t1 = exclusion_pattern_selected_iff [OF f1 r]
  note t2 = exclusion_pattern_selected_iff [OF f2 r]
  from t1 have "([Glob ''lookups''] \<in> set (exclusion_patterns {''searchHead''}))
      = ({''searchHead''} \<subseteq> {''forwarder'', ''indexer''})"
    by (rule conjunct1)
  then have a: "[Glob ''lookups''] \<notin> set (exclusion_patterns {''searchHead''})"
    by simp
  from t2 have "([Glob ''lookups''] \<in> set (exclusion_patterns {''forwarder''}))
      = ({''forwarder''} \<subseteq> {''forwarder'', ''indexer''})"
    by (rule conjunct1)
  then have b: "[Glob ''lookups''] \<in> set (exclusion_patterns {''forwarder''})"
    by simp
  note t1c = t1 [THEN conjunct2, THEN conjunct2]
  have "exclusion_patterns {''searchHead''} =
      map fst (filter (\<lambda>(p, r). {''searchHead''} \<subseteq> r) exclusion_rule)"
    by (rule t1c)
  then have c: "exclusion_patterns {''searchHead''} =
       [[Glob ''app.manifest''], [Glob ''default'', Glob ''*.conf''],
        [Glob ''local'', Glob ''*.conf''], [Glob ''metadata'', Glob ''local.meta''],
        [Glob ''README'', exclude_conf_spec]]"
    by (simp add: exclusion_rule_def)
  from a b c show ?thesis by simp
qed

section \<open>An asset whose name starts like the bin directory\<close>

text \<open>
  What \<^verbatim>\<open>_detect_is_empty\<close> computes for an app whose manifest declares no documentation
  file: the retained assets are compared with the two metadata paths and with the prefix
  \<^verbatim>\<open>path.join(app_root, 'bin')\<close>, which has no separator at its end.
\<close>

lemma only_app_configuration:
  "(length configurations = 1 \<and> ''app'' \<in> set configurations) = (configurations = [''app''])"
  by (cases configurations) auto

lemma detect_is_empty_without_documents:
  assumes "finite asset_filenames"
  shows "detect_is_empty app_root no_documents asset_filenames configurations
         = Some ((configurations = [] \<or> configurations = [''app''])
                 \<and> (\<forall>asset_file \<in> asset_filenames.
                        asset_file = join app_root ''metadata''
                        \<or> asset_file = join (join app_root ''metadata'') ''default.meta''
                        \<or> startswith asset_file (join app_root ''bin'')))"
proof -
  have empty: "(card asset_filenames = 0) = (asset_filenames = {})"
    using assms by simp
  show ?thesis
    unfolding detect_is_empty_def no_documents_def only_app_configuration empty
    by (cases "configurations = [] \<or> configurations = [''app'']") auto
qed

text \<open>
  C7 at a concrete app: the only retained configuration is \<^verbatim>\<open>app\<close>, the manifest declares
  no documentation file, and the only retained asset is the file \<^verbatim>\<open>app/binary.dat\<close>, which
  is not under \<^verbatim>\<open>app/bin/\<close>. The test \<^verbatim>\<open>asset_file.startswith(app_bin)\<close> takes it for a
  part of the bin directory and the app is reported empty; the file \<^verbatim>\<open>app/other.dat\<close> in its
  place makes the app not empty, and a file under \<^verbatim>\<open>app/bin/\<close> leaves it empty.
\<close>

theorem detect_is_empty_prefix_of_bin:
  "detect_is_empty ''app'' no_documents {''app/binary.dat''} [''app''] = Some True
   \<and> \<not> startswith ''app/binary.dat'' (join ''app'' ''bin'' @ ''/'')
   \<and> detect_is_empty ''app'' no_documents {''app/other.dat''} [''app''] = Some False
   \<and> detect_is_empty ''app'' no_documents {''app/bin'', ''app/bin/run.py''} [''app''] = Some True"
  by (simp add: detect_is_empty_def no_documents_def join_def startswith_def)

text \<open>
  The same with a declared license file: the file and the directory above it do not count
  as content of the app.
\<close>

lemma detect_is_empty_license:
  "detect_is_empty ''app'' licensed
     {''app/docs'', ''app/docs/LICENSE.txt'', ''app/metadata'', ''app/metadata/default.meta''}
     [''app''] = Some True"
proof -
  have n: "normpath ''docs/LICENSE.txt'' = ''docs/LICENSE.txt''"
    by (simp add: normpath_def startswith_def)
  have d1: "dirname ''docs/LICENSE.txt'' = ''docs''" by (simp add: dirname_def)
  have d2: "dirname ''docs'' = []" by (simp add: dirname_def)
  have j1: "normpath (join ''app'' ''docs/LICENSE.txt'') = ''app/docs/LICENSE.txt''"
    by (simp add: normpath_def join_def startswith_def)
  have j2: "normpath (join ''app'' ''docs'') = ''app/docs''"
    by (simp add: normpath_def join_def startswith_def)
  have w0: "add_with_directories ''app'' [] S = Some S" for S
    by (subst add_with_directories.simps) simp
  have w1: "add_with_directories ''app'' ''docs'' S = Some (insert ''app/docs'' S)" for S
    by (subst add_with_directories.simps) (simp add: d2 j2 w0)
  have w2: "add_with_directories ''app'' ''docs/LICENSE.txt'' S
              = Some (insert ''app/docs'' (insert ''app/docs/LICENSE.txt'' S))" for S
    by (subst add_with_directories.simps) (simp add: d1 j1 w1)
  show ?thesis
    by (simp add: detect_is_empty_def licensed_def n w2 join_def startswith_def)
qed

section \<open>Removal of an app that still has dependents\<close>

lemma str_join_mentions:
  "d \<in> set ds \<Longrightarrow> \<exists>pre post. str_join sep ds = pre @ d @ post"
proof (induction sep ds rule: str_join.induct)
  case (1 sep)
  then show ?case by simp
next
  case (2 sep x)
  then have "str_join sep [x] = [] @ d @ []" by simp
  then show ?case by blast
next
  case (3 sep x y ys)
  show ?case
  proof (cases "d = x")
    case True
    then have "str_join sep (x # y # ys) = [] @ d @ (sep @ str_join sep (y # ys))" by simp
    then show ?thesis by blast
  next
    case False
    with 3 obtain pre post where "str_join sep (y # ys) = pre @ d @ post" by auto
    then have "str_join sep (x # y # ys) = (x @ sep @ pre) @ d @ post" by simp
    then show ?thesis by blast
  qed
qed

lemma remove_app_refused:
  assumes "map_of apps app_id = Some installation"
    and "installation_dependents installation \<noteq> []"
  shows "\<exists>message.
     AppServerClass_remove_app remove_installation app_id (apps, env) =
       (apps, env\<lparr>error_log := error_log env @ [message],
                  dependency_requirements := Some (installation_dependents installation),
                  payload_status := STATUS_ERROR_DEPENDENCY_REQUIRED\<rparr>)
     \<and> (\<forall>d \<in> set (installation_dependents installation). \<exists>pre post. message = pre @ d @ post)"
proof -
  let ?sep = "newline @ ''    ''"
  let ?head = "app_id @ '' cannot be uninstalled because it is still required by these apps:''
                         @ newline @ ''    ''"
  let ?m = "?head @ str_join ?sep (installation_dependents installation)"
  have run: "AppServerClass_remove_app remove_installation app_id (apps, env) =
       (apps, env\<lparr>error_log := error_log env @ [?m],
                  dependency_requirements := Some (installation_dependents installation),
                  payload_status := STATUS_ERROR_DEPENDENCY_REQUIRED\<rparr>)"
    using assms by (simp add: AppServerClass_remove_app_def)
  have "\<exists>pre post. ?m = pre @ d @ post" if "d \<in> set (installation_dependents installation)" for d
  proof -
    from str_join_mentions [OF that, of ?sep] obtain pre post
      where "str_join ?sep (installation_dependents installation) = pre @ d @ post" by blast
    then have "?m = (?head @ pre) @ d @ post" by simp
    then show ?thesis by blast
  qed
  with run show ?thesis by blast
qed

lemma remove_app_proceeds:
  assumes "map_of apps app_id = Some installation"
    and "installation_dependents installation = []"
  shows "AppServerClass_remove_app remove_installation app_id (apps, env) =
           (remove_installation installation apps, env)"
  using assms by (simp add: AppServerClass_remove_app_def)

lemma collection_remove_app_refused:
  assumes sc: "map_of coll name = Some sc"
    and inst: "map_of (server_class_apps sc) app_id = Some installation"
    and deps: "installation_dependents installation \<noteq> []"
  shows "\<exists>env'. AppServerClassCollection_remove_app remove_installation app_id [name] (coll, env)
           = Inr (coll, env')
         \<and> length (error_log env') = Suc (length (error_log env))
         \<and> dependency_requirements env' = Some (installation_dependents installation)
         \<and> payload_status env' = STATUS_ERROR_DEPENDENCY_REQUIRED"
proof -
  from remove_app_refused [OF inst deps, of remove_installation env] obtain message where
    run: "AppServerClass_remove_app remove_installation app_id (server_class_apps sc, env) =
       (server_class_apps sc, env\<lparr>error_log := error_log env @ [message],
                  dependency_requirements := Some (installation_dependents installation),
                  payload_status := STATUS_ERROR_DEPENDENCY_REQUIRED\<rparr>)"
    by blast
  from inst have mem: "app_id \<in> fst ` set (server_class_apps sc)"
    by (metis domI dom_map_of_conv_image_fst)
  have same: "od_set name (sc\<lparr>server_class_apps := server_class_apps sc\<rparr>) coll = coll"
    using sc by (simp add: od_set_same)
  show ?thesis
    using sc mem run same by (simp add: AppServerClassCollection_remove_app_def)
qed

text \<open>
  C8: when the installation of the app in a server class has at least one dependent,
  \<^verbatim>\<open>AppServerClass.remove_app\<close> logs one error whose message names every dependent, hands
  the dependents to the payload, sets the status \<^verbatim>\<open>STATUS_ERROR_DEPENDENCY_REQUIRED\<close>, and
  leaves the installation graph as it was, whatever \<^verbatim>\<open>remove_installation\<close> does; the
  same holds through \<^verbatim>\<open>AppServerClassCollection.remove_app\<close>. The installation is handed
  to \<^verbatim>\<open>remove_installation\<close> exactly when it has no dependent, and then nothing is logged.
\<close>

theorem remove_app_with_dependents:
  assumes "map_of apps app_id = Some installation"
  shows "(installation_dependents installation \<noteq> [] \<longrightarrow>
           (\<exists>message.
              AppServerClass_remove_app remove_installation app_id (apps, env) =
                (apps, env\<lparr>error_log := error_log env @ [message],
                           dependency_requirements := Some (installation_dependents installation),
                           payload_status := STATUS_ERROR_DEPENDENCY_REQUIRED\<rparr>)
              \<and> (\<forall>d \<in> set (installation_dependents installation).
                    \<exists>pre post. message = pre @ d @ post))
           \<and> (\<forall>coll name sc. map_of coll name = Some sc \<and> server_class_apps sc = apps \<longrightarrow>
                 (\<exists>env'. AppServerClassCollection_remove_app remove_installation app_id [name]
                            (coll, env) = Inr (coll, env')
                         \<and> length (error_log env') = Suc (length (error_log env)))))
       \<and> (installation_dependents installation = [] \<longrightarrow>
            AppServerClass_remove_app remove_installation app_id (apps, env) =
              (remove_installation installation apps, env))"
proof (intro conjI impI allI)
  assume d: "installation_dependents installation \<noteq> []"
  from remove_app_refused [OF assms d]
  show "\<exists>message.
              AppServerClass_remove_app remove_installation app_id (apps, env) =
                (apps, env\<lparr>error_log := error_log env @ [message],
                           dependency_requirements := Some (installation_dependents installation),
                           payload_status := STATUS_ERROR_DEPENDENCY_REQUIRED\<rparr>)
              \<and> (\<forall>d \<in> set (installation_dependents installation).
                    \<exists>pre post. message = pre @ d @ post)" .
next
  fix coll :: "(string \<times> server_class) list" and name and sc
  assume d: "installation_dependents installation \<noteq> []"
    and c: "map_of coll name = Some sc \<and> server_class_apps sc = apps"
  from c assms have i: "map_of (server_class_apps sc) app_id = Some installation" by simp
  from c have s: "map_of coll name = Some sc" by simp
  from collection_remove_app_refused [OF s i d, of remove_installation env]
  show "\<exists>env'. AppServerClassCollection_remove_app remove_installation app_id [name]
                            (coll, env) = Inr (coll, env')
                         \<and> length (error_log env') = Suc (length (error_log env))"
    by blast
next
  assume "installation_dependents installation = []"
  with assms show "AppServerClass_remove_app remove_installation app_id (apps, env) =
              (remove_installation installation apps, env)"
    by (rule remove_app_proceeds)
qed

theorem remove_app_with_dependents_witness:
  "AppServerClass_remove_app example_remove_installation ''pkg-a'' (example_apps, example_env) =
     (example_apps,
      \<lparr>error_log = [''pkg-a cannot be uninstalled because it is still required by these apps:''
                      @ newline @ ''    pkg-c''],
       warning_log = [], dependency_requirements = Some [''pkg-c''],
       missing_dependencies = [], missing_optional_dependencies = [],
       payload_status = STATUS_ERROR_DEPENDENCY_REQUIRED\<rparr>)
   \<and> AppServerClass_remove_app example_remove_installation ''pkg-c'' (example_apps, example_env) =
     ([(''pkg-a'', \<lparr>installation_id = ''pkg-a'', installation_dependents = [''pkg-c'']\<rparr>)],
      example_env)"
proof -
  have a: "map_of example_apps ''pkg-a''
             = Some \<lparr>installation_id = ''pkg-a'', installation_dependents = [''pkg-c'']\<rparr>"
    by (simp add: example_apps_def)
  have c: "map_of example_apps ''pkg-c''
             = Some \<lparr>installation_id = ''pkg-c'', installation_dependents = []\<rparr>"
    by (simp add: example_apps_def)
  from remove_app_with_dependents [OF a, of example_remove_installation example_env]
  obtain message where
    "AppServerClass_remove_app example_remove_installation ''pkg-a'' (example_apps, example_env) =
       (example_apps, example_env\<lparr>error_log := error_log example_env @ [message],
          dependency_requirements := Some [''pkg-c''],
          payload_status := STATUS_ERROR_DEPENDENCY_REQUIRED\<rparr>)"
    by auto
  then have r1: "fst (AppServerClass_remove_app example_remove_installation ''pkg-a''
                        (example_apps, example_env)) = example_apps"
    by simp
  have r1': "AppServerClass_remove_app example_remove_installation ''pkg-a'' (example_apps, example_env) =
     (example_apps,
      \<lparr>error_log = [''pkg-a cannot be uninstalled because it is still required by these apps:''
                      @ newline @ ''    pkg-c''],
       warning_log = [], dependency_requirements = Some [''pkg-c''],
       missing_dependencies = [], missing_optional_dependencies = [],
       payload_status = STATUS_ERROR_DEPENDENCY_REQUIRED\<rparr>)"
    using r1 by (simp add: AppServerClass_remove_app_def a example_env_def)
  from remove_app_with_dependents [OF c, of example_remove_installation example_env]
  have "AppServerClass_remove_app example_remove_installation ''pkg-c'' (example_apps, example_env) =
     (example_remove_installation
        \<lparr>installation_id = ''pkg-c'', installation_dependents = []\<rparr> example_apps, example_env)"
    by simp
  then have r2: "AppServerClass_remove_app example_remove_installation ''pkg-c''
       (example_apps, example_env) =
     ([(''pkg-a'', \<lparr>installation_id = ''pkg-a'', installation_dependents = [''pkg-c'']\<rparr>)],
      example_env)"
    by (simp add: example_remove_installation_def example_apps_def)
  from r1' r2 show ?thesis by simp
qed

section \<open>The shape of the description\<close>

lemma concat_replicate_spaces: "concat (replicate level ''   '') = replicate (3 * level) CHR '' ''"
  by (induction level) (simp_all add: numeral_3_eq_3)

lemma describe_dependencies_rows:
  assumes "\<And>t l. t \<in> snd ` set deps \<Longrightarrow> l > 0 \<Longrightarrow>
             self_describe t (Suc l) = map_option (\<lambda>rows. concat (map (row_line h) rows)) (below t (Suc l))"
    and "level > 0"
  shows "describe_dependencies self_describe h deps level out =
           map_option (\<lambda>rows. out @ concat (map (row_line h) rows)) (rows_of below deps level)"
  using assms
proof (induction deps arbitrary: out)
  case Nil
  then show ?case by simp
next
  case (Cons a deps)
  obtain d t where a: "a = (d, t)" by (cases a)
  have sub: "self_describe t (Suc level)
               = map_option (\<lambda>rows. concat (map (row_line h) rows)) (below t (Suc level))"
    using Cons.prems(1) [of t level] Cons.prems(2) a by simp
  have ih: "describe_dependencies self_describe h deps level out' =
           map_option (\<lambda>rows. out' @ concat (map (row_line h) rows)) (rows_of below deps level)"
    for out'
    using Cons.IH [of out'] Cons.prems by simp
  show ?case
  proof (cases "below t (Suc level)")
    case None
    with sub a show ?thesis by simp
  next
    case (Some sub_rows)
    with sub a ih show ?thesis
      by (cases "rows_of below deps level")
         (simp_all add: concat_replicate_spaces dependency_text_def)
  qed
qed

lemma describe_rows:
  "level > 0 \<Longrightarrow>
   describe n h s level =
     map_option (\<lambda>rows. (if level = 1 then root_line h s else []) @ concat (map (row_line h) rows))
       (dependency_rows n h s level)"
proof (induction n arbitrary: s level)
  case 0
  then show ?case by simp
next
  case (Suc n)
  have below: "describe n h t (Suc l)
      = map_option (\<lambda>rows. concat (map (row_line h) rows)) (dependency_rows n h t (Suc l))"
    if "l > 0" for t l
    using Suc.IH [of "Suc l" t] that by simp
  show ?case
    using describe_dependencies_rows [of "source_dependencies (h s)" "describe n h" h
            "dependency_rows n h" level, OF below Suc.prems]
    by (simp add: root_line_def)
qed

lemma rows_of_some:
  assumes "\<And>t. t \<in> snd ` set deps \<Longrightarrow> below t (Suc depth) \<noteq> None"
  shows "rows_of below deps depth \<noteq> None"
  using assms
proof (induction deps)
  case Nil
  then show ?case by simp
next
  case (Cons a deps)
  obtain d t where a: "a = (d, t)" by (cases a)
  from Cons.prems [of t] a obtain sub where "below t (Suc depth) = Some sub" by auto
  moreover from Cons obtain later where "rows_of below deps depth = Some later" by auto
  ultimately show ?case using a by simp
qed

lemma dependency_rows_some:
  assumes rank: "\<forall>s d t. (d, t) \<in> set (source_dependencies (h s)) \<longrightarrow> rank t < (rank s :: nat)"
  shows "rank s < n \<Longrightarrow> dependency_rows n h s depth \<noteq> None"
proof (induction n arbitrary: s depth)
  case 0
  then show ?case by simp
next
  case (Suc n)
  have "dependency_rows n h t (Suc depth) \<noteq> None" if "t \<in> snd ` set (source_dependencies (h s))" for t
  proof -
    from that obtain d where "(d, t) \<in> set (source_dependencies (h s))" by auto
    with rank have "rank t < rank s" by blast
    with Suc.prems have "rank t < n" by simp
    then show ?thesis by (rule Suc.IH)
  qed
  then show ?case by (simp add: rows_of_some)
qed

text \<open>
  C9, as stated: a line at depth 2 starts with two units \<^verbatim>\<open>'|   '\<close> before its marker. On
  the chain of three sources the code writes one bar and six spaces instead.
\<close>

theorem description_prefix_counterexample:
  "description 3 chain_heap chain_graph
     = Some (chain_description, chain_graph\<lparr>self_description := Some chain_description\<rparr>)
   \<and> dependency_rows 3 chain_heap 0 1 = Some [(1, any_version, 1), (2, any_version, 2)]
   \<and> chain_description
       \<noteq> root_line chain_heap 0
           @ concat (map (claimed_row_line chain_heap) [(1, any_version, 1), (2, any_version, 2)])"
proof -
  have three: "(3::nat) = Suc (Suc (Suc 0))" by simp
  have d: "describe 3 chain_heap 0 1 = Some chain_description"
    unfolding three
    by (simp add: chain_heap_def chain_description_def any_version_def)
  have r: "dependency_rows 3 chain_heap 0 1 = Some [(1, any_version, 1), (2, any_version, 2)]"
    unfolding three by (simp add: chain_heap_def)
  have n: "chain_description
       \<noteq> root_line chain_heap 0
           @ concat (map (claimed_row_line chain_heap) [(1, any_version, 1), (2, any_version, 2)])"
    by (simp add: chain_description_def root_line_def dependency_text_def chain_heap_def
          any_version_def newline_def numeral_2_eq_2)
  from d r n show ?thesis
    by (simp add: description_def chain_graph_def)
qed

text \<open>
  C9, amended: on a store whose dependencies are acyclic (they descend along a rank) the
  first read of \<^verbatim>\<open>description\<close> computes the text and stores it, and every later read
  returns the stored text without computing anything. The text is the line of the root,
  \<^verbatim>\<open>'|-- ' id@version\<close>, followed by one line for each dependency met on the depth-first
  walk from the root in declaration order (one line for each path from the root); the line
  of a dependency at depth \<open>k\<close> is one \<^verbatim>\<open>'|'\<close>, then \<open>3 * k\<close> spaces, then \<^verbatim>\<open>'|-- '\<close>, then
  \<^verbatim>\<open>id@version (accepting range)\<close>.
\<close>

theorem description_tree:
  assumes "\<forall>s d t. (d, t) \<in> set (source_dependencies (h s)) \<longrightarrow> rank t < (rank s :: nat)"
    and "rank (self_root self) < n"
    and "self_description self = None"
  shows "\<exists>rows text.
           dependency_rows n h (self_root self) 1 = Some rows
         \<and> text = root_line h (self_root self) @ concat (map (row_line h) rows)
         \<and> description n h self = Some (text, self\<lparr>self_description := Some text\<rparr>)
         \<and> description m h' (self\<lparr>self_description := Some text\<rparr>)
             = Some (text, self\<lparr>self_description := Some text\<rparr>)"
proof -
  from dependency_rows_some [of h rank "self_root self" n 1, OF assms(1) assms(2)]
  obtain rows where rows: "dependency_rows n h (self_root self) 1 = Some rows"
    by blast
  let ?text = "root_line h (self_root self) @ concat (map (row_line h) rows)"
  have "describe n h (self_root self) 1 = Some ?text"
    using describe_rows [of 1 n h "self_root self"] rows by simp
  then have first: "description n h self = Some (?text, self\<lparr>self_description := Some ?text\<rparr>)"
    using assms(3) by (simp add: description_def)
  have later: "description m h' (self\<lparr>self_description := Some ?text\<rparr>)
             = Some (?text, self\<lparr>self_description := Some ?text\<rparr>)"
    by (simp add: description_def)
  from rows first later show ?thesis by blast
qed

theorem description_tree_witness:
  "description 3 chain_heap chain_graph
     = Some (''|-- app@1.0.0'' @ newline @
             ''|   |-- lib@1.0.0 (accepting *)'' @ newline @
             ''|      |-- base@1.0.0 (accepting *)'' @ newline,
             chain_graph\<lparr>self_description := Some chain_description\<rparr>)"
proof -
  define rank :: "nat \<Rightarrow> nat" where "rank s = 2 - s" for s
  have a: "\<forall>s d t. (d, t) \<in> set (source_dependencies (chain_heap s)) \<longrightarrow> rank t < rank s"
    by (auto simp: chain_heap_def rank_def split: if_splits)
  have b: "rank (self_root chain_graph) < 3" by (simp add: rank_def)
  have c: "self_description chain_graph = None" by (simp add: chain_graph_def)
  from description_tree [of chain_heap rank chain_graph 3, OF a b c]
  obtain rows tx where
    t: "dependency_rows 3 chain_heap (self_root chain_graph) 1 = Some rows"
       "tx = root_line chain_heap (self_root chain_graph) @ concat (map (row_line chain_heap) rows)"
       "description 3 chain_heap chain_graph = Some (tx, chain_graph\<lparr>self_description := Some tx\<rparr>)"
    by blast
  have three: "(3::nat) = Suc (Suc (Suc 0))" by simp
  have "dependency_rows 3 chain_heap 0 1 = Some [(1, any_version, 1), (2, any_version, 2)]"
    unfolding three by (simp add: chain_heap_def)
  with t(1) have rows: "rows = [(1, any_version, 1), (2, any_version, 2)]"
    by (simp add: chain_graph_def)
  have "tx = chain_description"
    unfolding t(2) rows
    by (simp add: chain_graph_def chain_description_def root_line_def dependency_text_def
          chain_heap_def any_version_def eval_nat_numeral)
  with t(3) show ?thesis by (simp add: chain_description_def)
qed

section \<open>An array schema applied to a scalar\<close>

text \<open>
  \<^verbatim>\<open>JsonDataType.validate\<close> returns \<^verbatim>\<open>True\<close> only for an instance of the data type, so
  the last line of \<^verbatim>\<open>JsonArray.validate\<close>, which validates a scalar by the element type, is
  never reached: the test \<^verbatim>\<open>self.is_instance(value)\<close> before it cannot fail.
\<close>

lemma JsonDataType_validate_true:
  assumes "JsonDataType_validate onerror self name v recorded = Inr (True, recorded')"
  shows "is_instance self v"
proof (rule ccontr)
  assume "\<not> is_instance self v"
  with assms show False
    by (cases onerror) (simp_all add: JsonDataType_validate_def call_onerror_def)
qed

lemma iterate_scalar:
  assumes "\<not> is_Iterable v"
  shows "iterate v = Inl TypeError"
  using assms by (cases v) simp_all

lemma validate_scalar_of_element_type:
  assumes "is_instance t v" and "\<not> is_Iterable v"
  shows "validate onerror (JsonArray (JsonValue t c d r)) name v recorded = Inl TypeError"
proof -
  have inst: "is_instance (JsonArray (JsonValue t c d r)) v"
    using assms by simp
  have "JsonDataType_validate onerror (JsonArray (JsonValue t c d r)) name v recorded
        = Inr (True, recorded)"
    unfolding JsonDataType_validate_def using inst by simp
  then show ?thesis
    using inst assms(2) by (simp add: iterate_scalar del: is_instance.simps)
qed

text \<open>The characters of a string are strings, so a string is a valid array of strings.\<close>

lemma validate_elements_characters:
  "validate_elements (JsonValue_validate onerror (JsonValue JsonString c d r)) name i
     (map (\<lambda>x. PyStr [x]) s) error_count recorded = Inr (error_count, recorded)"
proof (induction s arbitrary: i)
  case Nil
  show ?case by simp
next
  case (Cons x s)
  have "JsonValue_validate onerror (JsonValue JsonString c d r)
          (name @ ''['' @ string_of (PyNumber (int i)) @ '']'') (PyStr [x]) recorded
        = Inr (True, recorded)"
    by (simp add: JsonDataType_validate_def)
  then show ?case
    using Cons.IH [of "Suc i"] by simp
qed

lemma validate_string_as_array:
  "validate onerror (JsonArray (JsonValue JsonString c d r)) name (PyStr s) recorded
   = Inr (True, recorded)"
  by (simp add: JsonDataType_validate_def validate_elements_characters)

lemma convert_from_string_as_array:
  "convert_from onerror (JsonArray (JsonValue JsonString None d r)) name (PyStr s) converter
     default_value recorded
   = (case converter of
        None \<Rightarrow> Inr (PyList [PyStr s], recorded)
      | Some c \<Rightarrow>
          (case c (PyList [PyStr s]) of
             Inl e \<Rightarrow> Inl e
           | Inr converted \<Rightarrow> Inr (converted, recorded)))"
proof -
  have "JsonValue_convert_from onerror (JsonValue JsonString None d r) name (PyStr s) recorded
        = Inr (PyStr s, recorded)"
    by (simp add: JsonDataType_validate_def string_of_def)
  then show ?thesis
    by (simp add: validate_string_as_array del: validate.simps JsonValue_convert_from.simps
          split: option.splits)
qed

text \<open>
  C10: \<^verbatim>\<open>JsonArray.convert_from\<close> applied to a scalar that is an instance of the element type.
  The method first validates the value, and \<^verbatim>\<open>JsonArray.validate\<close> iterates over every value
  that \<^verbatim>\<open>JsonArray.is_instance\<close> accepts. A scalar of the element type that cannot be iterated,
  which is every number and every truth value, therefore ends in \<^verbatim>\<open>TypeError\<close>, whatever
  \<^verbatim>\<open>onerror\<close> is, and no list is returned. A string is iterated character by character, and
  each character is a string: for an array of strings the bare string \<^verbatim>\<open>s\<close> is converted to
  the list \<^verbatim>\<open>[s]\<close>, which then goes through the converter of the array.
\<close>

theorem JsonArray_convert_from_scalar:
  "(is_instance t v \<and> \<not> is_Iterable v \<longrightarrow>
      convert_from onerror (JsonArray (JsonValue t c d r)) name v converter default_value recorded
      = Inl TypeError)
   \<and> convert_from onerror (JsonArray (JsonValue JsonString None d r)) name (PyStr s) converter
       default_value recorded
     = (case converter of
          None \<Rightarrow> Inr (PyList [PyStr s], recorded)
        | Some f \<Rightarrow>
            (case f (PyList [PyStr s]) of
               Inl e \<Rightarrow> Inl e
             | Inr converted \<Rightarrow> Inr (converted, recorded)))"
proof (intro conjI impI)
  assume "is_instance t v \<and> \<not> is_Iterable v"
  then have "validate onerror (JsonArray (JsonValue t c d r)) name v recorded = Inl TypeError"
    by (intro validate_scalar_of_element_type) simp_all
  then show "convert_from onerror (JsonArray (JsonValue t c d r)) name v converter default_value
               recorded = Inl TypeError"
    by (simp del: validate.simps)
next
  show "convert_from onerror (JsonArray (JsonValue JsonString None d r)) name (PyStr s) converter
          default_value recorded
        = (case converter of
             None \<Rightarrow> Inr (PyList [PyStr s], recorded)
           | Some f \<Rightarrow>
               (case f (PyList [PyStr s]) of
                  Inl e \<Rightarrow> Inl e
                | Inr converted \<Rightarrow> Inr (converted, recorded)))"
    by (rule convert_from_string_as_array)
qed

theorem JsonArray_convert_from_scalar_witness:
  "is_instance JsonNumber (PyNumber 5) \<and> \<not> is_Iterable (PyNumber 5)
   \<and> convert_from Raising (JsonArray (JsonValue JsonNumber None PyNone False)) ''count''
       (PyNumber 5) None PyNone [] = Inl TypeError
   \<and> convert_from Raising (JsonArray (JsonValue JsonString None PyNone False)) ''workload''
       (PyStr ''forwarder'') None PyNone [] = Inr (PyList [PyStr ''forwarder''], [])"
  using JsonArray_convert_from_scalar
    [where t = JsonNumber and v = "PyNumber 5" and onerror = Raising and c = None and d = PyNone
       and r = False and name = "''count''" and converter = None and default_value = PyNone
       and recorded = "[]" and s = "''forwarder''"]
    JsonArray_convert_from_scalar
    [where t = JsonNumber and v = "PyNumber 5" and onerror = Raising and c = None and d = PyNone
       and r = False and name = "''workload''" and converter = None and default_value = PyNone
       and recorded = "[]" and s = "''forwarder''"]
  by simp

end
